theory Spec2Isabelle
  imports Complex_Main "HOL-Library.Log_Nat" "HOL-Library.Product_Lexorder"
begin

section \<open>JavaScript numbers\<close>

text \<open>
  The billing engine (\<open>src/routes/billingEngine.js\<close>) computes with JavaScript numbers,
  which are IEEE 754 binary64 values. A finite number is modelled by the rational it
  denotes; every arithmetic operation rounds its exact result to the nearest binary64
  value, ties to even, with gradual underflow (least exponent \<open>-1074\<close>) and overflow to an
  infinity from \<open>2^1024\<close> on. The two zeros are one value: the engine divides by the
  constant 100 and by a quantity it has tested to be positive, so the sign of a zero is
  never observed.
\<close>

text \<open>The power \<open>2^n\<close> for an integer \<open>n\<close>.\<close>

definition pow2 :: "int \<Rightarrow> rat" where
  "pow2 n = (if 0 \<le> n then of_int (2 ^ nat n) else 1 / of_int (2 ^ nat (- n)))"

text \<open>For \<open>x > 0\<close>, the integer \<open>n\<close> with \<open>2^n \<le> x < 2^(n+1)\<close>.\<close>

definition ilog2 :: "rat \<Rightarrow> int" where
  "ilog2 x =
     (case quotient_of x of (p, q) \<Rightarrow>
        (let c = bitlen p - bitlen q
         in if pow2 c \<le> x then c else c - 1))"

text \<open>
  The exponent of the unit in the last place of \<open>x\<close>: 53 significant bits, and no
  exponent below that of the subnormal numbers.
\<close>

definition expo :: "rat \<Rightarrow> int" where
  "expo x = max (- 1074) (ilog2 \<bar>x\<bar> - 52)"

text \<open>The nearest integer, ties to even.\<close>

definition rne :: "rat \<Rightarrow> int" where
  "rne y =
     (let f = \<lfloor>y\<rfloor>; r = y - of_int f
      in if r < 1 / 2 then f
         else if 1 / 2 < r then f + 1
         else if even f then f else f + 1)"

text \<open>The nearest number with a 53-bit significand, before the overflow test.\<close>

definition round_double :: "rat \<Rightarrow> rat" where
  "round_double x =
     (if x = 0 then 0 else of_int (rne (x / pow2 (expo x))) * pow2 (expo x))"

datatype jsnum = NaN | Fin rat | PInf | NInf

text \<open>
  The binary64 value of an exact result; also the value of a decimal literal of the
  source (\<open>0.07\<close>) and of \<open>Number("39.1234")\<close>.
\<close>

definition to_double :: "rat \<Rightarrow> jsnum" where
  "to_double x =
     (let r = round_double x
      in if 1024 \<le> ilog2 \<bar>r\<bar> then (if 0 < r then PInf else NInf) else Fin r)"

definition js_sign :: "jsnum \<Rightarrow> int" where
  "js_sign a =
     (case a of
        NaN \<Rightarrow> 0
      | Fin x \<Rightarrow> (if x < 0 then - 1 else if x = 0 then 0 else 1)
      | PInf \<Rightarrow> 1
      | NInf \<Rightarrow> - 1)"

definition inf_of_sign :: "int \<Rightarrow> jsnum" where
  "inf_of_sign s = (if s = 0 then NaN else if 0 < s then PInf else NInf)"

text \<open>The operators \<open>a * b\<close>, \<open>a / b\<close> and \<open>a + b\<close> on numbers.\<close>

definition js_mul :: "jsnum \<Rightarrow> jsnum \<Rightarrow> jsnum" where
  "js_mul a b =
     (case (a, b) of
        (Fin x, Fin y) \<Rightarrow> to_double (x * y)
      | _ \<Rightarrow> if a = NaN \<or> b = NaN then NaN else inf_of_sign (js_sign a * js_sign b))"

definition js_div :: "jsnum \<Rightarrow> jsnum \<Rightarrow> jsnum" where
  "js_div a b =
     (case (a, b) of
        (Fin x, Fin y) \<Rightarrow> if y = 0 then inf_of_sign (js_sign a) else to_double (x / y)
      | (Fin x, _) \<Rightarrow> if b = NaN then NaN else Fin 0
      | (_, Fin y) \<Rightarrow> if a = NaN then NaN else inf_of_sign (js_sign a * (if y < 0 then - 1 else 1))
      | _ \<Rightarrow> NaN)"

definition js_add :: "jsnum \<Rightarrow> jsnum \<Rightarrow> jsnum" where
  "js_add a b =
     (case (a, b) of
        (Fin x, Fin y) \<Rightarrow> to_double (x + y)
      | (Fin x, _) \<Rightarrow> b
      | (_, Fin y) \<Rightarrow> a
      | _ \<Rightarrow> if a = b then a else NaN)"

text \<open>\<open>Math.floor(a)\<close> and the test \<open>a > 0\<close>.\<close>

definition js_floor :: "jsnum \<Rightarrow> jsnum" where
  "js_floor a = (case a of Fin x \<Rightarrow> Fin (of_int \<lfloor>x\<rfloor>) | _ \<Rightarrow> a)"

definition js_gt0 :: "jsnum \<Rightarrow> bool" where
  "js_gt0 a = (case a of Fin x \<Rightarrow> 0 < x | PInf \<Rightarrow> True | _ \<Rightarrow> False)"

section \<open>JavaScript values reaching \<open>trunc100\<close>\<close>

text \<open>
  The argument of \<open>trunc100\<close> is untyped. The engine passes it numbers; \<open>undefined\<close>,
  \<open>null\<close> and booleans are the other primitive values kept here, and \<open>JPlainObject\<close> is
  an object literal \<open>{}\<close>, which is truthy and converts to \<open>NaN\<close>. Strings are not
  modelled.
\<close>

datatype jsval = JUndefined | JNull | JBool bool | JNum jsnum | JPlainObject

text \<open>ToBoolean: \<open>undefined\<close>, \<open>null\<close>, \<open>false\<close>, \<open>NaN\<close> and \<open>0\<close> are falsy.\<close>

fun truthy :: "jsval \<Rightarrow> bool" where
  "truthy JUndefined = False"
| "truthy JNull = False"
| "truthy (JBool b) = b"
| "truthy (JNum NaN) = False"
| "truthy (JNum (Fin x)) = (x \<noteq> 0)"
| "truthy (JNum PInf) = True"
| "truthy (JNum NInf) = True"
| "truthy JPlainObject = True"

text \<open>The operator \<open>a || b\<close>.\<close>

definition js_or :: "jsval \<Rightarrow> jsval \<Rightarrow> jsval" where
  "js_or a b = (if truthy a then a else b)"

text \<open>The conversion \<open>Number(v)\<close>.\<close>

fun Number :: "jsval \<Rightarrow> jsnum" where
  "Number JUndefined = NaN"
| "Number JNull = Fin 0"
| "Number (JBool b) = Fin (if b then 1 else 0)"
| "Number (JNum n) = n"
| "Number JPlainObject = NaN"

text \<open>
  \<^verbatim>\<open>
  function trunc100(input) {
    const value = Number(input || 0);
    return Math.floor(value / 100) * 100;
  }
  \<close>
\<close>

definition trunc100 :: "jsval \<Rightarrow> jsnum" where
  "trunc100 input =
     (let value = Number (js_or input (JNum (Fin 0)))
      in js_mul (js_floor (js_div value (Fin 100))) (Fin 100))"

text \<open>
  The rule as the specification words it, \<open>truncateToHundred(x) = floor(x / 100) * 100\<close>,
  in exact arithmetic; \<open>trunc100\<close> is compared with it below.
\<close>

definition truncateToHundred :: "rat \<Rightarrow> rat" where
  "truncateToHundred x = of_int \<lfloor>x / 100\<rfloor> * 100"

text \<open>A multiple of 100: an integer value divisible by 100.\<close>

definition hundreds :: "rat \<Rightarrow> bool" where
  "hundreds x = (x = of_int \<lfloor>x\<rfloor> \<and> \<lfloor>x\<rfloor> mod 100 = 0)"

text \<open>The exact sum of a list of numbers, if all of them are finite.\<close>

fun fin_sum :: "jsnum list \<Rightarrow> rat option" where
  "fin_sum [] = Some 0"
| "fin_sum (Fin x # ns) = map_option (\<lambda>t. x + t) (fin_sum ns)"
| "fin_sum (_ # ns) = None"

section \<open>Data model\<close>

text \<open>
  The tables of the billing engine, with the columns its invoice operations read or
  write. A table is the list of its rows in insertion order; \<open>id\<close> is the primary key.
  A \<open>deleted_at\<close> column is only ever tested for \<open>NULL\<close>, so it is a flag. A nullable
  column is an \<open>option\<close> (\<open>None\<close> is SQL \<open>NULL\<close>). A numeric column holds the
  JavaScript number that the engine reads from it with \<open>Number\<close>, or has written to it;
  the conversion between that number and the decimal of the column is done by the driver
  and the database, outside these sources. A date \<open>YYYY-MM-DD\<close> is
  the triple (year, month, day) and a month \<open>YYYY-MM\<close> the pair (year, month), both in
  lexicographic order.
\<close>

type_synonym date = "nat \<times> nat \<times> nat"
type_synonym month = "nat \<times> nat"

datatype pricing_policy = THB_BASED | KRW_FIXED
datatype event_status = PENDING | INVOICED
datatype invoice_status = Draft | Issued | Paid
datatype rate_status = RateDraft | Active | Superseded

record billing_event =
  be_id :: nat
  be_client_id :: nat
  be_service_code :: string
  be_event_date :: date
  be_qty :: "jsnum option"
  be_pricing_policy :: pricing_policy
  be_unit_price_thb :: "jsnum option"
  be_amount_thb :: "jsnum option"
  be_unit_price_krw :: "jsnum option"
  be_amount_krw :: "jsnum option"
  be_fx_rate_thbkrw :: "jsnum option"
  be_status :: event_status
  be_invoice_id :: "nat option"
  be_deleted :: bool

record exchange_rate =
  er_id :: nat
  er_rate_date :: date
  er_base_currency :: string
  er_quote_currency :: string
  er_rate :: jsnum
  er_status :: rate_status
  er_locked :: bool
  er_deleted :: bool

text \<open>
  \<open>inv_invoice_no\<close> holds the three parts of the string
  \<open>KRW-{client_id}-{yyyymm}-{seq padded to 4}\<close>. \<open>inv_invoice_date\<close> stands for the
  columns \<open>issue_date\<close>, \<open>invoice_date\<close> and \<open>due_date\<close>, which generation sets to the
  same value; \<open>total_amount\<close> always equals \<open>total_krw\<close>.
\<close>

record invoice =
  inv_id :: nat
  inv_client_id :: nat
  inv_invoice_month :: month
  inv_invoice_no :: "nat \<times> month \<times> nat"
  inv_status :: invoice_status
  inv_invoice_date :: date
  inv_fx_rate_thbkrw :: jsnum
  inv_subtotal_krw :: jsnum
  inv_vat_krw :: jsnum
  inv_total_krw :: jsnum
  inv_created_by :: nat
  inv_deleted :: bool

record invoice_item =
  ii_id :: nat
  ii_invoice_id :: nat
  ii_service_code :: string
  ii_description :: string
  ii_qty :: jsnum
  ii_unit_price_krw :: jsnum
  ii_amount_krw :: jsnum
  ii_deleted :: bool

record invoice_sequence =
  seq_id :: nat
  seq_client_id :: nat
  seq_yyyymm :: month
  seq_last_seq :: nat
  seq_deleted :: bool

record catalog_row =
  sc_service_code :: string
  sc_service_name :: "string option"
  sc_deleted :: bool

record store =
  invoices :: "invoice list"
  invoice_items :: "invoice_item list"
  billing_events :: "billing_event list"
  exchange_rates :: "exchange_rate list"
  invoice_sequences :: "invoice_sequence list"
  service_catalog :: "catalog_row list"

datatype error =
    INVOICE_ALREADY_ISSUED | FX_NOT_FOUND | NO_PENDING_EVENTS
  | NOT_FOUND | INVALID_STATUS | EVENTS_NOT_FOUND | EVENTS_LOCKED

section \<open>Query helpers\<close>

text \<open>The \<open>insertId\<close> of an auto-increment key: above every id of the table.\<close>

definition fresh_id :: "nat list \<Rightarrow> nat" where
  "fresh_id ids = Suc (fold max ids 0)"

text \<open>\<open>ORDER BY key DESC LIMIT 1\<close>: a row of greatest key, if there is a row.\<close>

fun first_desc :: "('a \<Rightarrow> 'k::linorder) \<Rightarrow> 'a list \<Rightarrow> 'a option" where
  "first_desc key [] = None"
| "first_desc key (x # xs) =
     (case first_desc key xs of
        None \<Rightarrow> Some x
      | Some y \<Rightarrow> if key y \<le> key x then Some x else Some y)"

text \<open>\<open>Number(v || 0)\<close> of a nullable numeric column.\<close>

definition num_or0 :: "jsnum option \<Rightarrow> jsnum" where
  "num_or0 v = Number (js_or (case v of None \<Rightarrow> JNull | Some x \<Rightarrow> JNum x) (JNum (Fin 0)))"

text \<open>
  \<^verbatim>\<open>
  function monthRange(invoiceMonth) {
    const from = `${invoiceMonth}-01`;
    const [year, month] = invoiceMonth.split("-").map(Number);
    const to = month === 12 ? `${year + 1}-01-01` : `${year}-${String(month + 1).padStart(2, "0")}-01`;
    return { from, to };
  }
  \<close>
\<close>

definition monthRange :: "month \<Rightarrow> date \<times> date" where
  "monthRange invoiceMonth =
     (case invoiceMonth of (year, month) \<Rightarrow>
        ((year, month, 1),
         if month = 12 then (year + 1, 1, 1) else (year, month + 1, 1)))"

text \<open>
  \<open>resolveInvoiceSequence(conn, clientId, yyyymm)\<close>: the counter row of the client and
  month is created at 1, or incremented.
\<close>

definition resolveInvoiceSequence :: "store \<Rightarrow> nat \<Rightarrow> month \<Rightarrow> nat \<times> store" where
  "resolveInvoiceSequence s clientId yyyymm =
     (case find (\<lambda>q. seq_client_id q = clientId \<and> seq_yyyymm q = yyyymm \<and> \<not> seq_deleted q)
             (invoice_sequences s) of
        None \<Rightarrow>
          (1, s\<lparr>invoice_sequences := invoice_sequences s @
                 [\<lparr>seq_id = fresh_id (map seq_id (invoice_sequences s)),
                   seq_client_id = clientId, seq_yyyymm = yyyymm,
                   seq_last_seq = 1, seq_deleted = False\<rparr>]\<rparr>)
      | Some q \<Rightarrow>
          (let nextSeq = seq_last_seq q + 1
           in (nextSeq,
               s\<lparr>invoice_sequences :=
                    map (\<lambda>r. if seq_id r = seq_id q then r\<lparr>seq_last_seq := nextSeq\<rparr> else r)
                      (invoice_sequences s)\<rparr>)))"

section \<open>Invoice generation: \<open>POST /billing/invoices/generate\<close>\<close>

text \<open>
  The validated request body; \<open>created_by\<close> is the creator that \<open>parseCreator\<close> resolves
  from the body or the signed-in user, \<open>regenerate_draft\<close> the flag 0 or 1. The handler
  inserts the invoice with or without an \<open>invoice_date\<close> column, depending on the
  schema; the values are the same.
\<close>

record generate_payload =
  client_id :: nat
  invoice_month :: month
  invoice_date :: date
  regenerate_draft :: bool
  created_by :: nat

text \<open>
  The data of a successful reply: \<open>{invoice_id, reused: true}\<close>, or
  \<open>{invoice: invoiceRows[0], events_count, reused: false, fx_rate_id}\<close>.
\<close>

datatype generate_data =
    Reused nat
  | Generated "invoice option" nat nat

text \<open>The latest non-deleted invoice of the client and month (\<open>ORDER BY id DESC LIMIT 1\<close>).\<close>

definition existing_invoice :: "store \<Rightarrow> generate_payload \<Rightarrow> invoice option" where
  "existing_invoice s payload =
     first_desc inv_id
       (filter (\<lambda>i. inv_client_id i = client_id payload
                   \<and> inv_invoice_month i = invoice_month payload
                   \<and> \<not> inv_deleted i) (invoices s))"

text \<open>
  Regeneration of a draft: its events go back to \<open>PENDING\<close>, its items and the invoice
  itself are soft-deleted.
\<close>

definition revert_draft :: "store \<Rightarrow> nat \<Rightarrow> store" where
  "revert_draft s existing_id =
     s\<lparr>billing_events :=
         map (\<lambda>e. if be_invoice_id e = Some existing_id \<and> \<not> be_deleted e
                   then e\<lparr>be_status := PENDING, be_invoice_id := None, be_fx_rate_thbkrw := None\<rparr>
                   else e) (billing_events s),
       invoice_items :=
         map (\<lambda>it. if ii_invoice_id it = existing_id \<and> \<not> ii_deleted it
                    then it\<lparr>ii_deleted := True\<rparr> else it) (invoice_items s),
       invoices :=
         map (\<lambda>i. if inv_id i = existing_id then i\<lparr>inv_deleted := True\<rparr> else i) (invoices s)\<rparr>"

text \<open>
  The exchange rate of an invoice date: among the non-deleted active THB/KRW rates dated
  on or before it, \<open>ORDER BY rate_date DESC, id DESC LIMIT 1\<close>.
\<close>

definition fx_candidates :: "store \<Rightarrow> date \<Rightarrow> exchange_rate list" where
  "fx_candidates s d =
     filter (\<lambda>r. er_base_currency r = ''THB'' \<and> er_quote_currency r = ''KRW''
                 \<and> \<not> er_deleted r \<and> er_status r = Active \<and> er_rate_date r \<le> d)
       (exchange_rates s)"

definition fx_row :: "store \<Rightarrow> date \<Rightarrow> exchange_rate option" where
  "fx_row s d = first_desc (\<lambda>r. (er_rate_date r, er_id r)) (fx_candidates s d)"

definition lock_rate :: "store \<Rightarrow> nat \<Rightarrow> store" where
  "lock_rate s fxRateId =
     s\<lparr>exchange_rates :=
         map (\<lambda>r. if er_id r = fxRateId then r\<lparr>er_locked := True\<rparr> else r) (exchange_rates s)\<rparr>"

text \<open>The pending events of the client in the month, \<open>ORDER BY id ASC\<close>.\<close>

definition pending_events :: "store \<Rightarrow> nat \<Rightarrow> month \<Rightarrow> billing_event list" where
  "pending_events s clientId invoiceMonth =
     (case monthRange invoiceMonth of (from, to) \<Rightarrow>
        sort_key be_id
          (filter (\<lambda>e. be_client_id e = clientId \<and> be_status e = PENDING \<and> \<not> be_deleted e
                      \<and> from \<le> be_event_date e \<and> be_event_date e < to)
             (billing_events s)))"

text \<open>
  The normalized KRW amount of one event (the first half of the body of the loop over
  \<open>events\<close>).
\<close>

definition normalizedAmount :: "jsnum \<Rightarrow> billing_event \<Rightarrow> jsnum" where
  "normalizedAmount fx event =
     (if be_pricing_policy event = THB_BASED then
        (let amountThb = (case be_amount_thb event of
                            Some a \<Rightarrow> a
                          | None \<Rightarrow> js_mul (num_or0 (be_unit_price_thb event)) (num_or0 (be_qty event)))
         in trunc100 (JNum (js_mul amountThb fx)))
      else
        (let amountKrw = (case be_amount_krw event of
                            Some a \<Rightarrow> a
                          | None \<Rightarrow> js_mul (num_or0 (be_unit_price_krw event)) (num_or0 (be_qty event)))
         in trunc100 (JNum amountKrw)))"

text \<open>
  The \<open>UPDATE billing_events SET amount_krw = ?, fx_rate_thbkrw = ?, status = 'INVOICED',
  invoice_id = ? WHERE id = ?\<close> of the loop: \<open>stamped\<close> is its \<open>SET\<close> clause on one row.
\<close>

definition stamped :: "jsnum \<Rightarrow> jsnum \<Rightarrow> nat \<Rightarrow> billing_event \<Rightarrow> billing_event" where
  "stamped amount fx invoiceId r =
     r\<lparr>be_amount_krw := Some amount, be_fx_rate_thbkrw := Some fx,
       be_status := INVOICED, be_invoice_id := Some invoiceId\<rparr>"

definition stamp_event :: "jsnum \<Rightarrow> jsnum \<Rightarrow> nat \<Rightarrow> nat \<Rightarrow> billing_event list \<Rightarrow> billing_event list" where
  "stamp_event amount fx invoiceId eventId tbl =
     map (\<lambda>r. if be_id r = eventId then stamped amount fx invoiceId r else r) tbl"

text \<open>
  The JavaScript \<open>Map\<close> named \<open>grouped\<close>: service code to (qty, amount_krw), in
  insertion order of the keys.
\<close>

type_synonym grouped = "(string \<times> jsnum \<times> jsnum) list"

definition group_add :: "string \<Rightarrow> jsnum \<Rightarrow> jsnum \<Rightarrow> grouped \<Rightarrow> grouped" where
  "group_add code q a g =
     (let g1 = (if code \<in> set (map fst g) then g else g @ [(code, Fin 0, Fin 0)])
      in map (\<lambda>(c, gq, ga). if c = code then (c, js_add gq q, js_add ga a) else (c, gq, ga)) g1)"

fun event_loop ::
  "jsnum \<Rightarrow> nat \<Rightarrow> billing_event list \<Rightarrow> billing_event list \<times> grouped \<Rightarrow> billing_event list \<times> grouped"
where
  "event_loop fx invoiceId [] st = st"
| "event_loop fx invoiceId (event # rest) (tbl, g) =
     (let normalized = normalizedAmount fx event
      in event_loop fx invoiceId rest
           (stamp_event normalized fx invoiceId (be_id event) tbl,
            group_add (be_service_code event) (num_or0 (be_qty event)) normalized g))"

text \<open>\<open>serviceNameMap.get(serviceCode) || serviceCode\<close>; a later catalog row wins.\<close>

definition item_description :: "catalog_row list \<Rightarrow> string \<Rightarrow> string" where
  "item_description catalog serviceCode =
     (case map_of (rev (map (\<lambda>r. (sc_service_code r, sc_service_name r))
                          (filter (\<lambda>r. \<not> sc_deleted r) catalog))) serviceCode of
        Some (Some name) \<Rightarrow> if name = [] then serviceCode else name
      | _ \<Rightarrow> serviceCode)"

text \<open>The loop over \<open>grouped.entries()\<close>: one item row per service code.\<close>

fun item_loop ::
  "nat \<Rightarrow> (string \<Rightarrow> string) \<Rightarrow> grouped \<Rightarrow> jsnum \<times> invoice_item list \<Rightarrow> jsnum \<times> invoice_item list"
where
  "item_loop invoiceId descr [] st = st"
| "item_loop invoiceId descr ((serviceCode, agg_qty, agg_amount) # rest) (subtotalKrw, items) =
     (let qty = agg_qty;
          lineAmount = trunc100 (JNum agg_amount);
          unitDisplay = (if js_gt0 qty then trunc100 (JNum (js_div lineAmount qty)) else lineAmount)
      in item_loop invoiceId descr rest
           (js_add subtotalKrw lineAmount,
            items @ [\<lparr>ii_id = fresh_id (map ii_id items), ii_invoice_id = invoiceId,
                       ii_service_code = serviceCode, ii_description = descr serviceCode,
                       ii_qty = qty, ii_unit_price_krw = unitDisplay,
                       ii_amount_krw = lineAmount, ii_deleted = False\<rparr>]))"

text \<open>
  The callback from the allocation of the invoice number to the reply, for a rate and a
  non-empty list of pending events.
\<close>

definition write_invoice ::
  "generate_payload \<Rightarrow> nat \<Rightarrow> jsnum \<Rightarrow> billing_event list \<Rightarrow> store \<Rightarrow> generate_data \<times> store"
where
  "write_invoice payload fxRateId fx events s2 =
     (case resolveInvoiceSequence s2 (client_id payload) (invoice_month payload) of
        (nextSeq, s3) \<Rightarrow>
     (let invoiceNo = (client_id payload, invoice_month payload, nextSeq);
          invoiceId = fresh_id (map inv_id (invoices s3));
          s4 = s3\<lparr>invoices := invoices s3 @
                 [\<lparr>inv_id = invoiceId, inv_client_id = client_id payload,
                   inv_invoice_month = invoice_month payload, inv_invoice_no = invoiceNo,
                   inv_status = Draft, inv_invoice_date = invoice_date payload,
                   inv_fx_rate_thbkrw = fx, inv_subtotal_krw = Fin 0, inv_vat_krw = Fin 0,
                   inv_total_krw = Fin 0, inv_created_by = created_by payload,
                   inv_deleted = False\<rparr>]\<rparr>
      in case event_loop fx invoiceId events (billing_events s4, []) of
        (tbl, grouped) \<Rightarrow>
     (case item_loop invoiceId (item_description (service_catalog s4)) grouped (Fin 0, invoice_items s4) of
        (subtotal0, items) \<Rightarrow>
     (let subtotalKrw = trunc100 (JNum subtotal0);
          vatKrw = trunc100 (JNum (js_mul subtotalKrw (to_double (7 / 100))));
          totalKrw = trunc100 (JNum (js_add subtotalKrw vatKrw));
          items' = items @
                 [\<lparr>ii_id = fresh_id (map ii_id items), ii_invoice_id = invoiceId,
                   ii_service_code = ''VAT_7'', ii_description = ''VAT 7%'',
                   ii_qty = Fin 1, ii_unit_price_krw = vatKrw, ii_amount_krw = vatKrw,
                   ii_deleted = False\<rparr>];
          s5 = s4\<lparr>billing_events := tbl, invoice_items := items',
                  invoices := map (\<lambda>i. if inv_id i = invoiceId
                                         then i\<lparr>inv_subtotal_krw := subtotalKrw, inv_vat_krw := vatKrw,
                                                inv_total_krw := totalKrw\<rparr>
                                         else i) (invoices s4)\<rparr>
      in (Generated (find (\<lambda>i. inv_id i = invoiceId) (invoices s5)) (length events) fxRateId,
          s5)))))"

text \<open>The callback from the rate lookup on, on the store left by the draft handling.\<close>

definition generate_fresh :: "generate_payload \<Rightarrow> store \<Rightarrow> (error + generate_data) \<times> store" where
  "generate_fresh payload s1 =
     (case fx_row s1 (invoice_date payload) of
        None \<Rightarrow> (Inl FX_NOT_FOUND, s1)
      | Some fxRow \<Rightarrow>
          (let fxRateId = er_id fxRow;
               fx = er_rate fxRow;
               s2 = lock_rate s1 fxRateId;
               events = pending_events s2 (client_id payload) (invoice_month payload)
           in if events = [] then (Inl NO_PENDING_EVENTS, s2)
              else (case write_invoice payload fxRateId fx events s2 of
                      (d, s5) \<Rightarrow> (Inr d, s5))))"

text \<open>The whole callback passed to \<open>withTransaction\<close> by the generate route.\<close>

definition generate :: "generate_payload \<Rightarrow> store \<Rightarrow> (error + generate_data) \<times> store" where
  "generate payload s =
     (case existing_invoice s payload of
        Some existing \<Rightarrow>
          if inv_status existing \<noteq> Draft then (Inl INVOICE_ALREADY_ISSUED, s)
          else if \<not> regenerate_draft payload then (Inr (Reused (inv_id existing)), s)
          else generate_fresh payload (revert_draft s (inv_id existing))
      | None \<Rightarrow> generate_fresh payload s)"

section \<open>Invoice lifecycle\<close>

text \<open>
  The callbacks of \<open>POST /billing/invoices/:id/issue\<close> and \<open>.../mark-paid\<close>. The status
  column holds \<open>draft\<close>, \<open>issued\<close> or \<open>paid\<close>; the handlers compare its lower-case form.
\<close>

definition issue :: "nat \<Rightarrow> store \<Rightarrow> (error + nat \<times> invoice_status) \<times> store" where
  "issue invoiceId s =
     (case find (\<lambda>i. inv_id i = invoiceId \<and> \<not> inv_deleted i) (invoices s) of
        None \<Rightarrow> (Inl NOT_FOUND, s)
      | Some row \<Rightarrow>
          if inv_status row \<noteq> Draft then (Inl INVALID_STATUS, s)
          else (Inr (invoiceId, Issued),
                s\<lparr>invoices := map (\<lambda>i. if inv_id i = invoiceId then i\<lparr>inv_status := Issued\<rparr> else i)
                                  (invoices s)\<rparr>))"

definition mark_paid :: "nat \<Rightarrow> store \<Rightarrow> (error + nat \<times> invoice_status) \<times> store" where
  "mark_paid invoiceId s =
     (case find (\<lambda>i. inv_id i = invoiceId \<and> \<not> inv_deleted i) (invoices s) of
        None \<Rightarrow> (Inl NOT_FOUND, s)
      | Some row \<Rightarrow>
          if inv_status row \<noteq> Issued then (Inl INVALID_STATUS, s)
          else (Inr (invoiceId, Paid),
                s\<lparr>invoices := map (\<lambda>i. if inv_id i = invoiceId then i\<lparr>inv_status := Paid\<rparr> else i)
                                  (invoices s)\<rparr>))"

text \<open>
  The callback of \<open>POST /billing/invoices/:id/duplicate-admin\<close>: a non-draft invoice and
  its live items are copied into a new draft with a new sequence number. The
  \<open>INSERT ... SELECT ... WHERE id = ?\<close> reads the row of that primary key. The admin
  check of the route answers before the transaction starts and is not part of it.
\<close>

fun copy_items :: "nat \<Rightarrow> invoice_item list \<Rightarrow> invoice_item list \<Rightarrow> invoice_item list" where
  "copy_items newInvoiceId [] items = items"
| "copy_items newInvoiceId (src # rest) items =
     copy_items newInvoiceId rest
       (items @ [src\<lparr>ii_id := fresh_id (map ii_id items), ii_invoice_id := newInvoiceId,
                      ii_deleted := False\<rparr>])"

definition duplicate_admin :: "nat \<Rightarrow> store \<Rightarrow> (error + invoice option) \<times> store" where
  "duplicate_admin sourceInvoiceId s =
     (case find (\<lambda>i. inv_id i = sourceInvoiceId \<and> \<not> inv_deleted i) (invoices s) of
        None \<Rightarrow> (Inl NOT_FOUND, s)
      | Some source \<Rightarrow>
          if inv_status source = Draft then (Inl INVALID_STATUS, s)
          else
            (case resolveInvoiceSequence s (inv_client_id source) (inv_invoice_month source) of
               (nextSeq, s1) \<Rightarrow>
            (let newInvoiceNo = (inv_client_id source, inv_invoice_month source, nextSeq);
                 newInvoiceId = fresh_id (map inv_id (invoices s1));
                 s2 = s1\<lparr>invoices := invoices s1 @
                        [source\<lparr>inv_id := newInvoiceId, inv_invoice_no := newInvoiceNo,
                                 inv_status := Draft, inv_deleted := False\<rparr>]\<rparr>;
                 s3 = s2\<lparr>invoice_items :=
                        copy_items newInvoiceId
                          (filter (\<lambda>it. ii_invoice_id it = sourceInvoiceId \<and> \<not> ii_deleted it)
                             (invoice_items s2))
                          (invoice_items s2)\<rparr>
             in (Inr (find (\<lambda>i. inv_id i = newInvoiceId) (invoices s3)), s3))))"

section \<open>Reverting events: \<open>POST /billing/events/mark-pending\<close>\<close>

text \<open>
  The rows of
  \<open>billing_events be LEFT JOIN invoices i ON i.id = be.invoice_id AND i.deleted_at IS NULL
   WHERE be.id IN (ids) AND be.deleted_at IS NULL\<close>: the event id with \<open>invoice_status\<close>;
  \<open>join_rows\<close> are the rows one event contributes. The admin check of the route
  answers before the transaction starts and is not part of it.
\<close>

definition join_rows :: "store \<Rightarrow> billing_event \<Rightarrow> (nat \<times> invoice_status option) list" where
  "join_rows s e =
     (case filter (\<lambda>i. be_invoice_id e = Some (inv_id i) \<and> \<not> inv_deleted i) (invoices s) of
        [] \<Rightarrow> [(be_id e, None)]
      | joined \<Rightarrow> map (\<lambda>i. (be_id e, Some (inv_status i))) joined)"

definition mark_pending_rows :: "nat list \<Rightarrow> store \<Rightarrow> (nat \<times> invoice_status option) list" where
  "mark_pending_rows ids s =
     concat (map (join_rows s)
               (filter (\<lambda>e. be_id e \<in> set ids \<and> \<not> be_deleted e) (billing_events s)))"

definition mark_pending :: "nat list \<Rightarrow> store \<Rightarrow> (error + nat) \<times> store" where
  "mark_pending ids s =
     (let rows = mark_pending_rows ids s
      in if rows = [] then (Inl EVENTS_NOT_FOUND, s)
         else
           (let blocked = filter (\<lambda>r. snd r = Some Issued \<or> snd r = Some Paid) rows
            in if blocked \<noteq> [] then (Inl EVENTS_LOCKED, s)
               else (Inr (length rows),
                     s\<lparr>billing_events :=
                          map (\<lambda>e. if be_id e \<in> set ids \<and> \<not> be_deleted e
                                    then e\<lparr>be_status := PENDING, be_invoice_id := None,
                                           be_fx_rate_thbkrw := None\<rparr>
                                    else e) (billing_events s)\<rparr>)))"

section \<open>Transactions and the five operations\<close>

text \<open>
  Modelled from the spec: \<open>withTransaction\<close> of \<open>src/services/stock\<close>, which the routes
  import and which is not among the sources. The spec: "All domain errors are raised
  from within the transaction and cause a full rollback before being surfaced"; "every
  mutating operation either fully succeeds (new committed state) or fully fails (prior
  state unchanged)". So a callback that ends in a domain error is rolled back, and one
  that ends in data is committed.
\<close>

definition withTransaction :: "(store \<Rightarrow> (error + 'a) \<times> store) \<Rightarrow> store \<Rightarrow> (error + 'a) \<times> store" where
  "withTransaction callback s =
     (case callback s of
        (Inl e, _) \<Rightarrow> (Inl e, s)
      | (Inr d, s') \<Rightarrow> (Inr d, s'))"

definition generateInvoice :: "generate_payload \<Rightarrow> store \<Rightarrow> (error + generate_data) \<times> store" where
  "generateInvoice payload = withTransaction (generate payload)"

definition issueInvoice :: "nat \<Rightarrow> store \<Rightarrow> (error + nat \<times> invoice_status) \<times> store" where
  "issueInvoice invoiceId = withTransaction (issue invoiceId)"

definition markInvoicePaid :: "nat \<Rightarrow> store \<Rightarrow> (error + nat \<times> invoice_status) \<times> store" where
  "markInvoicePaid invoiceId = withTransaction (mark_paid invoiceId)"

definition duplicateInvoiceForAdmin :: "nat \<Rightarrow> store \<Rightarrow> (error + invoice option) \<times> store" where
  "duplicateInvoiceForAdmin invoiceId = withTransaction (duplicate_admin invoiceId)"

definition markEventsPending :: "nat list \<Rightarrow> store \<Rightarrow> (error + nat) \<times> store" where
  "markEventsPending ids = withTransaction (mark_pending ids)"

section \<open>Notions used in the statements\<close>

text \<open>
  The store on which generation proceeds once the existing invoice has been handled:
  a draft that is to be regenerated has been reverted.
\<close>

definition draft_reverted :: "generate_payload \<Rightarrow> store \<Rightarrow> store" where
  "draft_reverted payload s =
     (case existing_invoice s payload of
        Some existing \<Rightarrow>
          if inv_status existing = Draft \<and> regenerate_draft payload
          then revert_draft s (inv_id existing) else s
      | None \<Rightarrow> s)"

text \<open>
  The exact sum of \<open>amount_krw\<close> over the live items of an invoice whose service code is
  not \<open>VAT_7\<close>.
\<close>

definition non_vat_item_sum :: "store \<Rightarrow> nat \<Rightarrow> rat option" where
  "non_vat_item_sum s invoiceId =
     fin_sum (map ii_amount_krw
       (filter (\<lambda>it. ii_invoice_id it = invoiceId \<and> \<not> ii_deleted it
                     \<and> ii_service_code it \<noteq> ''VAT_7'') (invoice_items s)))"

text \<open>The rank of a status, and the five callbacks as one step function.\<close>

fun status_rank :: "invoice_status \<Rightarrow> nat" where
  "status_rank Draft = 0"
| "status_rank Issued = 1"
| "status_rank Paid = 2"

definition rank_kept :: "invoice \<Rightarrow> invoice \<Rightarrow> bool" where
  "rank_kept a b = (inv_id b = inv_id a \<and> status_rank (inv_status a) \<le> status_rank (inv_status b))"

definition status_monotone :: "store \<Rightarrow> store \<Rightarrow> bool" where
  "status_monotone s s' = list_all2 rank_kept (invoices s) (take (length (invoices s)) (invoices s'))"

datatype operation =
    OpGenerate generate_payload
  | OpIssue nat
  | OpMarkPaid nat
  | OpDuplicate nat
  | OpMarkPending "nat list"

fun run_op :: "operation \<Rightarrow> store \<Rightarrow> store" where
  "run_op (OpGenerate payload) s = snd (generate payload s)"
| "run_op (OpIssue i) s = snd (issue i s)"
| "run_op (OpMarkPaid i) s = snd (mark_paid i s)"
| "run_op (OpDuplicate i) s = snd (duplicate_admin i s)"
| "run_op (OpMarkPending ids) s = snd (mark_pending ids s)"

section \<open>Sample data\<close>

text \<open>
  The events of \<open>POST /billing/events/sample\<close> (a shipping charge of 120 THB and an
  outbound fee of 10500 KRW) with the rate 39.1234 of the seed script, the invoice that
  generation makes of them, and an event without monetary columns.
\<close>

definition demo_fx :: jsnum where
  "demo_fx = to_double (391234 / 10000)"

definition demo_shipping :: billing_event where
  "demo_shipping =
     \<lparr>be_id = 1, be_client_id = 1, be_service_code = ''TH_SHIPPING'', be_event_date = (2026, 1, 3),
      be_qty = Some (Fin 1), be_pricing_policy = THB_BASED, be_unit_price_thb = Some (Fin 120),
      be_amount_thb = Some (Fin 120), be_unit_price_krw = None, be_amount_krw = None,
      be_fx_rate_thbkrw = None, be_status = PENDING, be_invoice_id = None, be_deleted = False\<rparr>"

definition demo_outbound :: billing_event where
  "demo_outbound =
     \<lparr>be_id = 2, be_client_id = 1, be_service_code = ''OUTBOUND_FEE'', be_event_date = (2026, 1, 7),
      be_qty = Some (Fin 3), be_pricing_policy = KRW_FIXED, be_unit_price_thb = None,
      be_amount_thb = None, be_unit_price_krw = Some (Fin 3500), be_amount_krw = Some (Fin 10500),
      be_fx_rate_thbkrw = None, be_status = PENDING, be_invoice_id = None, be_deleted = False\<rparr>"

definition demo_blank :: billing_event where
  "demo_blank =
     \<lparr>be_id = 3, be_client_id = 1, be_service_code = ''OUTBOUND_FEE'', be_event_date = (2026, 1, 7),
      be_qty = Some (Fin 3), be_pricing_policy = KRW_FIXED, be_unit_price_thb = None,
      be_amount_thb = None, be_unit_price_krw = None, be_amount_krw = None,
      be_fx_rate_thbkrw = None, be_status = PENDING, be_invoice_id = None, be_deleted = False\<rparr>"

definition demo_rate :: exchange_rate where
  "demo_rate =
     \<lparr>er_id = 1, er_rate_date = (2026, 1, 1), er_base_currency = ''THB'', er_quote_currency = ''KRW'',
      er_rate = demo_fx, er_status = Active, er_locked = False, er_deleted = False\<rparr>"

definition demo_store :: store where
  "demo_store =
     \<lparr>invoices = [], invoice_items = [], billing_events = [demo_shipping, demo_outbound],
      exchange_rates = [demo_rate], invoice_sequences = [], service_catalog = []\<rparr>"

definition demo_payload :: generate_payload where
  "demo_payload =
     \<lparr>client_id = 1, invoice_month = (2026, 1), invoice_date = (2026, 1, 31),
      regenerate_draft = False, created_by = 1\<rparr>"

definition demo_invoice :: invoice where
  "demo_invoice =
     \<lparr>inv_id = 1, inv_client_id = 1, inv_invoice_month = (2026, 1),
      inv_invoice_no = (1, (2026, 1), 1), inv_status = Draft, inv_invoice_date = (2026, 1, 31),
      inv_fx_rate_thbkrw = demo_fx, inv_subtotal_krw = Fin 15100, inv_vat_krw = Fin 1000,
      inv_total_krw = Fin 16100, inv_created_by = 1, inv_deleted = False\<rparr>"

definition demo_items :: "invoice_item list" where
  "demo_items =
     [\<lparr>ii_id = 1, ii_invoice_id = 1, ii_service_code = ''TH_SHIPPING'',
       ii_description = ''TH_SHIPPING'', ii_qty = Fin 1, ii_unit_price_krw = Fin 4600,
       ii_amount_krw = Fin 4600, ii_deleted = False\<rparr>,
      \<lparr>ii_id = 2, ii_invoice_id = 1, ii_service_code = ''OUTBOUND_FEE'',
       ii_description = ''OUTBOUND_FEE'', ii_qty = Fin 3, ii_unit_price_krw = Fin 3500,
       ii_amount_krw = Fin 10500, ii_deleted = False\<rparr>,
      \<lparr>ii_id = 3, ii_invoice_id = 1, ii_service_code = ''VAT_7'',
       ii_description = ''VAT 7%'', ii_qty = Fin 1, ii_unit_price_krw = Fin 1000,
       ii_amount_krw = Fin 1000, ii_deleted = False\<rparr>]"

definition demo_invoiced :: store where
  "demo_invoiced =
     \<lparr>invoices = [demo_invoice],
      invoice_items = demo_items,
      billing_events =
        [demo_shipping\<lparr>be_amount_krw := Some (Fin 4600), be_fx_rate_thbkrw := Some demo_fx,
                        be_status := INVOICED, be_invoice_id := Some 1\<rparr>,
         demo_outbound\<lparr>be_amount_krw := Some (Fin 10500), be_fx_rate_thbkrw := Some demo_fx,
                        be_status := INVOICED, be_invoice_id := Some 1\<rparr>],
      exchange_rates = [demo_rate\<lparr>er_locked := True\<rparr>],
      invoice_sequences =
        [\<lparr>seq_id = 1, seq_client_id = 1, seq_yyyymm = (2026, 1), seq_last_seq = 1,
          seq_deleted = False\<rparr>],
      service_catalog = []\<rparr>"

definition demo_issued :: store where
  "demo_issued = demo_invoiced\<lparr>invoices := [demo_invoice\<lparr>inv_status := Issued\<rparr>]\<rparr>"

definition demo_no_events :: store where
  "demo_no_events = demo_store\<lparr>billing_events := []\<rparr>"

text \<open>
  Six rates (two of one date, one after the invoice date, one superseded, one deleted),
  a payload dated before every rate, the same with regeneration asked for, and the store
  after generate, issue 1, duplicate 1, duplicate 1, issue 3.
\<close>

definition demo_rates :: "exchange_rate list" where
  "demo_rates =
     [demo_rate,
      demo_rate\<lparr>er_id := 2, er_rate_date := (2026, 1, 15), er_rate := Fin 40\<rparr>,
      demo_rate\<lparr>er_id := 3, er_rate_date := (2026, 1, 15), er_rate := Fin 41\<rparr>,
      demo_rate\<lparr>er_id := 4, er_rate_date := (2026, 2, 1), er_rate := Fin 42\<rparr>,
      demo_rate\<lparr>er_id := 5, er_rate_date := (2026, 1, 20), er_rate := Fin 43, er_status := Superseded\<rparr>,
      demo_rate\<lparr>er_id := 6, er_rate_date := (2026, 1, 25), er_rate := Fin 44, er_deleted := True\<rparr>]"

definition demo_early :: generate_payload where
  "demo_early = demo_payload\<lparr>invoice_date := (2025, 12, 31)\<rparr>"

definition demo_regenerate_early :: generate_payload where
  "demo_regenerate_early = demo_early\<lparr>regenerate_draft := True\<rparr>"

definition demo_duplicated :: store where
  "demo_duplicated =
     fold run_op [OpGenerate demo_payload, OpIssue 1, OpDuplicate 1, OpDuplicate 1, OpIssue 3]
       demo_store"

text \<open>An outbound fee filed under the service code \<open>VAT_7\<close>, and its invoice.\<close>

definition demo_vat_store :: store where
  "demo_vat_store =
     demo_store\<lparr>billing_events := [demo_outbound\<lparr>be_service_code := ''VAT_7''\<rparr>]\<rparr>"

definition demo_vat_invoice :: invoice where
  "demo_vat_invoice =
     demo_invoice\<lparr>inv_subtotal_krw := Fin 10500, inv_vat_krw := Fin 700, inv_total_krw := Fin 11200\<rparr>"

text \<open>
  A shipping charge of 2000 THB at the rate 32.05, and an outbound fee of
  36028797018963900 KRW with its invoice.
\<close>

definition demo_round_store :: store where
  "demo_round_store =
     demo_store\<lparr>billing_events := [demo_shipping\<lparr>be_amount_thb := Some (Fin 2000)\<rparr>],
                exchange_rates := [demo_rate\<lparr>er_rate := to_double (3205 / 100)\<rparr>]\<rparr>"

definition demo_large_store :: store where
  "demo_large_store =
     demo_store\<lparr>billing_events :=
       [demo_outbound\<lparr>be_amount_krw := Some (Fin 36028797018963900)\<rparr>]\<rparr>"

definition demo_large_invoice :: invoice where
  "demo_large_invoice =
     demo_invoice\<lparr>inv_subtotal_krw := Fin 36028797018963900, inv_vat_krw := Fin 2522015791327400,
                  inv_total_krw := Fin 38550812810291200\<rparr>"
section \<open>Rounding to binary64\<close>

lemma pow2_eq: "pow2 n = 2 powi n"
  by (simp add: pow2_def power_int_def nat_minus_as_int field_simps)

lemma ilog2_alt:
  "ilog2 x =
     (case quotient_of x of (p, q) \<Rightarrow>
        (let c = bitlen p - bitlen q
         in if 2 powi c \<le> x then c else c - 1))"
  by (simp add: ilog2_def pow2_eq)

lemma round_double_alt:
  "round_double x =
     (if x = 0 then 0 else of_int (rne (x / 2 powi expo x)) * 2 powi expo x)"
  by (simp add: round_double_def pow2_eq)

lemma pow2_pos [simp]: "0 < (2::rat) powi n"
  by simp

lemma pow2_le_iff: "(2::rat) powi a \<le> 2 powi b \<longleftrightarrow> a \<le> b"
proof
  assume a: "(2::rat) powi a \<le> 2 powi b"
  show "a \<le> b"
  proof (rule ccontr)
    assume "\<not> a \<le> b"
    then have "(2::rat) powi b < 2 powi a" by (intro power_int_strict_increasing) simp_all
    with a show False by simp
  qed
next
  assume "a \<le> b"
  then show "(2::rat) powi a \<le> 2 powi b" by (intro power_int_increasing) simp_all
qed

lemma pow2_less_iff: "(2::rat) powi a < 2 powi b \<longleftrightarrow> a < b"
  by (metis not_less pow2_le_iff)

lemma pow2_add: "(2::rat) powi (a + b) = 2 powi a * 2 powi b"
  by (simp add: power_int_add)

lemma pow2_diff: "(2::rat) powi (a - b) = 2 powi a / 2 powi b"
  by (simp add: power_int_diff)

lemma pow2_nonneg_int: "0 \<le> n \<Longrightarrow> (2::rat) powi n = of_int (2 ^ nat n)"
  by (simp add: power_int_nonneg_exp)

lemma ilog2_bounds:
  assumes "0 < x"
  shows "2 powi ilog2 x \<le> x" and "x < 2 powi (ilog2 x + 1)"
proof -
  obtain p q where pq: "quotient_of x = (p, q)" by (cases "quotient_of x")
  then have q: "0 < q" and x: "x = of_int p / of_int q"
    by (simp_all add: quotient_of_denom_pos quotient_of_div)
  with assms have p: "0 < p" by (simp add: zero_less_divide_iff)
  let ?c = "bitlen p - bitlen q"
  from bitlen_bounds [OF p] have bp: "2 ^ nat (bitlen p - 1) \<le> p" "p < 2 ^ nat (bitlen p)" by simp_all
  from bitlen_bounds [OF q] have bq: "2 ^ nat (bitlen q - 1) \<le> q" "q < 2 ^ nat (bitlen q)" by simp_all
  have p1: "1 \<le> bitlen p" and q1: "1 \<le> bitlen q"
    using p q by (simp_all add: bitlen_alt_def)
  have P_hi: "(of_int p :: rat) < 2 powi bitlen p"
  proof -
    have "(of_int p :: rat) < of_int (2 ^ nat (bitlen p))" using bp(2) by (simp only: of_int_less_iff)
    then show ?thesis using p1 by (simp add: power_int_nonneg_exp)
  qed
  have P_lo: "(2::rat) powi (bitlen p - 1) \<le> of_int p"
  proof -
    have "(of_int (2 ^ nat (bitlen p - 1)) :: rat) \<le> of_int p" using bp(1) by (simp only: of_int_le_iff)
    then show ?thesis using p1 by (simp add: power_int_nonneg_exp)
  qed
  have Q_hi: "(of_int q :: rat) < 2 powi bitlen q"
  proof -
    have "(of_int q :: rat) < of_int (2 ^ nat (bitlen q))" using bq(2) by (simp only: of_int_less_iff)
    then show ?thesis using q1 by (simp add: power_int_nonneg_exp)
  qed
  have Q_lo: "(2::rat) powi (bitlen q - 1) \<le> of_int q"
  proof -
    have "(of_int (2 ^ nat (bitlen q - 1)) :: rat) \<le> of_int q" using bq(1) by (simp only: of_int_le_iff)
    then show ?thesis using q1 by (simp add: power_int_nonneg_exp)
  qed
  have qpos: "(0::rat) < of_int q" using q by simp
  have hi: "x < 2 powi (?c + 1)"
  proof -
    have "x * 2 powi (bitlen q - 1) \<le> x * of_int q"
      using Q_lo assms by (simp add: mult_left_mono)
    also have "\<dots> = of_int p" using x qpos by simp
    also have "\<dots> < 2 powi bitlen p" by (rule P_hi)
    finally have "x < 2 powi bitlen p / 2 powi (bitlen q - 1)"
      by (simp add: pos_less_divide_eq)
    also have "\<dots> = 2 powi (?c + 1)"
      by (simp add: pow2_diff [symmetric] algebra_simps)
    finally show ?thesis .
  qed
  have lo: "2 powi (?c - 1) < x"
  proof -
    have "2 powi (bitlen p - 1) \<le> x * of_int q" using P_lo x qpos by simp
    also have "\<dots> < x * 2 powi bitlen q" using Q_hi assms by (simp add: mult_strict_left_mono)
    finally have "2 powi (bitlen p - 1) / 2 powi bitlen q < x"
      by (simp add: pos_divide_less_eq)
    moreover have "(2::rat) powi (bitlen p - 1) / 2 powi bitlen q = 2 powi (?c - 1)"
      by (simp add: pow2_diff [symmetric] algebra_simps)
    ultimately show ?thesis by simp
  qed
  have il: "ilog2 x = (if 2 powi ?c \<le> x then ?c else ?c - 1)"
    by (simp add: ilog2_alt pq Let_def)
  show "2 powi ilog2 x \<le> x"
    using lo by (simp add: il less_imp_le)
  show "x < 2 powi (ilog2 x + 1)"
    using hi by (simp add: il not_le)
qed

lemma ilog2_geI: "0 < x \<Longrightarrow> 2 powi n \<le> x \<Longrightarrow> n \<le> ilog2 x"
proof -
  assume "0 < x" "2 powi n \<le> x"
  with ilog2_bounds(2) [of x] have "(2::rat) powi n < 2 powi (ilog2 x + 1)" by simp
  then show ?thesis by (simp add: pow2_less_iff)
qed

lemma ilog2_ltI: "0 < x \<Longrightarrow> x < 2 powi n \<Longrightarrow> ilog2 x < n"
proof -
  assume "0 < x" "x < 2 powi n"
  with ilog2_bounds(1) [of x] have "(2::rat) powi ilog2 x < 2 powi n" by simp
  then show ?thesis by (simp add: pow2_less_iff)
qed

lemma ilog2_mono: "0 < x \<Longrightarrow> x \<le> y \<Longrightarrow> ilog2 x \<le> ilog2 y"
  by (rule ilog2_geI) (use ilog2_bounds(1) [of x] in auto)

lemma ilog2_0: "ilog2 0 = - 2"
  by (simp add: ilog2_alt bitlen_alt_def)

lemma expo_ge: "- 1074 \<le> expo x"
  by (simp add: expo_def)

lemma expo_minus [simp]: "expo (- x) = expo x"
  by (simp add: expo_def)

lemma expo_upper: "x \<noteq> 0 \<Longrightarrow> \<bar>x\<bar> < 2 powi (expo x + 53)"
proof -
  assume "x \<noteq> 0"
  then have "\<bar>x\<bar> < 2 powi (ilog2 \<bar>x\<bar> + 1)" by (intro ilog2_bounds) simp
  also have "\<dots> \<le> 2 powi (expo x + 53)" by (simp add: pow2_le_iff expo_def)
  finally show ?thesis .
qed

lemma expo_lower: "2 powi (- 1022) \<le> \<bar>x\<bar> \<Longrightarrow> 2 powi (expo x + 52) \<le> \<bar>x\<bar>"
proof -
  assume a: "2 powi (- 1022) \<le> \<bar>x\<bar>"
  then have pos: "0 < \<bar>x\<bar>" by (rule less_le_trans [OF pow2_pos])
  with a have "- 1022 \<le> ilog2 \<bar>x\<bar>" by (intro ilog2_geI)
  then have "expo x = ilog2 \<bar>x\<bar> - 52" by (simp add: expo_def)
  with ilog2_bounds(1) [OF pos] show ?thesis by simp
qed

lemma expo_geI: "x \<noteq> 0 \<Longrightarrow> 2 powi (n + 52) \<le> \<bar>x\<bar> \<Longrightarrow> n \<le> expo x"
proof -
  assume "x \<noteq> 0" "2 powi (n + 52) \<le> \<bar>x\<bar>"
  then have "n + 52 \<le> ilog2 \<bar>x\<bar>" by (intro ilog2_geI) simp_all
  then show ?thesis by (simp add: expo_def)
qed

lemma expo_mono: "x \<noteq> 0 \<Longrightarrow> \<bar>x\<bar> \<le> \<bar>y\<bar> \<Longrightarrow> expo x \<le> expo y"
proof -
  assume "x \<noteq> 0" "\<bar>x\<bar> \<le> \<bar>y\<bar>"
  then have "ilog2 \<bar>x\<bar> \<le> ilog2 \<bar>y\<bar>" by (intro ilog2_mono) simp_all
  then show ?thesis by (simp add: expo_def)
qed

lemma rne_of_int [simp]: "rne (of_int n) = n"
  by (simp add: rne_def)

lemma rne_le: "y \<le> of_int n \<Longrightarrow> rne y \<le> n"
proof -
  assume a: "y \<le> of_int n"
  then have f: "\<lfloor>y\<rfloor> \<le> n" by (metis floor_mono floor_of_int)
  show ?thesis
  proof (cases "y = of_int \<lfloor>y\<rfloor>")
    case True
    then have "rne y = \<lfloor>y\<rfloor>" by (metis rne_of_int)
    with f show ?thesis by simp
  next
    case False
    then have "of_int \<lfloor>y\<rfloor> < y" using of_int_floor_le [of y] by (metis less_le)
    with a have "(of_int \<lfloor>y\<rfloor> :: rat) < of_int n" by simp
    then have "\<lfloor>y\<rfloor> + 1 \<le> n" by simp
    moreover have "rne y \<le> \<lfloor>y\<rfloor> + 1" by (simp add: rne_def Let_def)
    ultimately show ?thesis by simp
  qed
qed

lemma rne_ge: "of_int n \<le> y \<Longrightarrow> n \<le> rne y"
proof -
  assume "of_int n \<le> y"
  then have "n \<le> \<lfloor>y\<rfloor>" by (simp add: le_floor_iff)
  moreover have "\<lfloor>y\<rfloor> \<le> rne y" by (simp add: rne_def Let_def)
  ultimately show ?thesis by simp
qed

lemma rne_err: "\<bar>of_int (rne y) - y\<bar> \<le> 1 / 2"
proof -
  have "0 \<le> y - of_int \<lfloor>y\<rfloor>" "y - of_int \<lfloor>y\<rfloor> < 1" by linarith+
  then show ?thesis
    unfolding rne_def Let_def
    by (cases "y - of_int \<lfloor>y\<rfloor> < 1 / 2"; cases "1 / 2 < y - of_int \<lfloor>y\<rfloor>"; cases "even \<lfloor>y\<rfloor>")
       (simp_all add: abs_if, linarith+)
qed

lemma rne_minus: "rne (- y) = - rne y"
proof (cases "y = of_int \<lfloor>y\<rfloor>")
  case True
  then obtain n where "y = of_int n" ..
  then have "- y = of_int (- n)" by simp
  then show ?thesis unfolding \<open>y = of_int n\<close> by (simp only: rne_of_int)
next
  case False
  then have fl: "\<lfloor>- y\<rfloor> = - \<lfloor>y\<rfloor> - 1"
    by (smt (verit) ceiling_altdef ceiling_def minus_minus of_int_floor_cancel)
  have r: "0 < y - of_int \<lfloor>y\<rfloor>" "y - of_int \<lfloor>y\<rfloor> < 1" using False by linarith+
  show ?thesis
    using r by (auto simp: rne_def Let_def fl)
qed

lemma expo_lower2: "x \<noteq> 0 \<Longrightarrow> - 1074 < expo x \<Longrightarrow> 2 powi (expo x + 52) \<le> \<bar>x\<bar>"
proof -
  assume x: "x \<noteq> 0" and "- 1074 < expo x"
  then have "expo x = ilog2 \<bar>x\<bar> - 52" by (simp add: expo_def max_def split: if_splits)
  with ilog2_bounds(1) [of "\<bar>x\<bar>"] x show ?thesis by simp
qed

lemma round_double_0 [simp]: "round_double 0 = 0"
  by (simp add: round_double_alt)

lemma round_double_minus: "round_double (- x) = - round_double x"
  by (simp add: round_double_alt rne_minus)

lemma round_double_exactI:
  assumes x: "x = of_int m * 2 powi e" and m: "\<bar>m\<bar> < 2 ^ 53" and e: "- 1074 \<le> e"
  shows "round_double x = x"
proof (cases "x = 0")
  case True
  then show ?thesis by simp
next
  case False
  have "\<bar>x\<bar> = of_int \<bar>m\<bar> * 2 powi e" by (simp add: x abs_mult)
  also have "\<dots> < of_int (2 ^ 53) * 2 powi e"
    using m by (intro mult_strict_right_mono) (simp_all only: of_int_less_iff pow2_pos)
  also have "\<dots> = 2 powi (e + 53)" by (simp add: pow2_add)
  finally have "ilog2 \<bar>x\<bar> < e + 53" using False by (intro ilog2_ltI) simp_all
  with e have le: "expo x \<le> e" by (simp add: expo_def)
  have "x / 2 powi expo x = of_int m * 2 powi (e - expo x)"
    by (simp add: x pow2_diff)
  also have "\<dots> = of_int (m * 2 ^ nat (e - expo x))"
    using le by (simp add: pow2_nonneg_int)
  finally have "rne (x / 2 powi expo x) = m * 2 ^ nat (e - expo x)"
    by (simp only: rne_of_int)
  then have "round_double x = of_int m * (2 powi (e - expo x) * 2 powi expo x)"
    using False le by (simp add: round_double_alt pow2_nonneg_int)
  also have "\<dots> = x" by (simp add: x pow2_add [symmetric])
  finally show ?thesis .
qed

lemma round_double_grid:
  assumes d: "round_double d = d" and n: "d = 0 \<or> n \<le> expo d"
  shows "\<exists>j. d = of_int j * 2 powi n"
proof (cases "d = 0")
  case True
  then have "d = of_int 0 * 2 powi n" by simp
  then show ?thesis ..
next
  case False
  with n have le: "n \<le> expo d" by simp
  define J where "J = rne (d / 2 powi expo d)"
  from d False have 1: "d = of_int J * 2 powi expo d"
    by (simp add: round_double_alt J_def)
  have 2: "2 powi expo d = (2::rat) powi (expo d - n) * 2 powi n"
    by (simp add: pow2_add [symmetric])
  have 3: "(2::rat) powi (expo d - n) = of_int (2 ^ nat (expo d - n))"
    using le by (simp add: pow2_nonneg_int)
  have "d = of_int (J * 2 ^ nat (expo d - n)) * 2 powi n"
    by (subst 1, subst 2, subst 3) simp
  then show ?thesis ..
qed

lemma round_double_cross_le:
  assumes d: "round_double d = d" and xd: "x \<le> d"
  shows "round_double x \<le> d"
proof (cases "x = 0")
  case True
  with xd show ?thesis by simp
next
  case x: False
  let ?p = "(2::rat) powi expo x"
  have rd: "round_double x = of_int (rne (x / ?p)) * ?p"
    using x by (simp add: round_double_alt)
  show ?thesis
  proof (cases "d = 0 \<or> expo x \<le> expo d")
    case True
    from round_double_grid [OF d True] obtain j where j: "d = of_int j * ?p" ..
    from xd have "x / ?p \<le> of_int j" by (simp add: j pos_divide_le_eq)
    then have "rne (x / ?p) \<le> j" by (rule rne_le)
    then have "(of_int (rne (x / ?p)) :: rat) \<le> of_int j" by (simp only: of_int_le_iff)
    then show ?thesis unfolding rd j by (simp add: mult_right_mono)
  next
    case False
    then have d0: "d \<noteq> 0" and lt: "expo d < expo x" by simp_all
    have ax: "\<bar>d\<bar> < \<bar>x\<bar>"
    proof (rule ccontr)
      assume "\<not> \<bar>d\<bar> < \<bar>x\<bar>"
      then have "expo x \<le> expo d" using x by (intro expo_mono) simp_all
      with lt show False by simp
    qed
    with xd have neg: "x < 0" by (simp add: abs_if split: if_splits)
    have "- 1074 < expo x" using lt expo_ge [of d] by simp
    from expo_lower2 [OF x this] neg have lo: "x \<le> - (2 powi (expo x + 52))" by simp
    have "x / ?p \<le> - (2 powi (expo x + 52)) / ?p"
      by (rule divide_right_mono [OF lo]) simp
    also have "- ((2::rat) powi (expo x + 52)) / ?p = of_int (- (2 ^ 52))"
      by (simp add: pow2_add)
    finally have "rne (x / ?p) \<le> - (2 ^ 52)" by (rule rne_le)
    then have "(of_int (rne (x / ?p)) :: rat) \<le> of_int (- (2 ^ 52))" by (simp only: of_int_le_iff)
    then have "round_double x \<le> of_int (- (2 ^ 52)) * ?p" unfolding rd by (simp only: mult_right_mono pow2_pos less_imp_le)
    also have "\<dots> = - (2 powi (expo x + 52))" by (simp add: pow2_add)
    also have "\<dots> \<le> - (2 powi (expo d + 53))" using lt by (simp add: pow2_le_iff)
    also have "\<dots> < d" using expo_upper [OF d0] by (simp add: abs_if split: if_splits)
    finally show ?thesis by simp
  qed
qed

lemma round_double_cross_ge:
  assumes d: "round_double d = d" and xd: "d \<le> x"
  shows "d \<le> round_double x"
proof -
  have "round_double (- d) = - d" by (simp add: round_double_minus d)
  moreover have "- x \<le> - d" using xd by simp
  ultimately have "round_double (- x) \<le> - d" by (rule round_double_cross_le)
  then show ?thesis by (simp add: round_double_minus)
qed

lemma round_double_err: "x \<noteq> 0 \<Longrightarrow> \<bar>round_double x - x\<bar> \<le> 2 powi expo x / 2"
proof -
  assume x: "x \<noteq> 0"
  let ?p = "(2::rat) powi expo x"
  have "round_double x - x = (of_int (rne (x / ?p)) - x / ?p) * ?p"
    using x by (simp add: round_double_alt algebra_simps)
  then have "\<bar>round_double x - x\<bar> = \<bar>of_int (rne (x / ?p)) - x / ?p\<bar> * ?p"
    by (simp add: abs_mult)
  also have "\<dots> \<le> (1 / 2) * ?p"
    by (intro mult_right_mono rne_err) simp
  finally show ?thesis by simp
qed

lemma to_double_Fin: "\<bar>round_double x\<bar> < 2 powi 1024 \<Longrightarrow> to_double x = Fin (round_double x)"
proof -
  assume a: "\<bar>round_double x\<bar> < 2 powi 1024"
  have "ilog2 \<bar>round_double x\<bar> < 1024"
  proof (cases "round_double x = 0")
    case True
    then show ?thesis by (simp add: ilog2_0)
  next
    case False
    then show ?thesis using a by (intro ilog2_ltI) simp_all
  qed
  then show ?thesis by (simp add: to_double_def Let_def)
qed

lemma to_double_between:
  assumes a: "round_double a = a" and b: "round_double b = b"
    and ax: "a \<le> x" and xb: "x \<le> b"
    and fa: "- (2 powi 1024) < a" and fb: "b < 2 powi 1024"
  shows "to_double x = Fin (round_double x)" and "a \<le> round_double x" and "round_double x \<le> b"
proof -
  show 1: "a \<le> round_double x" by (rule round_double_cross_ge [OF a ax])
  show 2: "round_double x \<le> b" by (rule round_double_cross_le [OF b xb])
  from 1 2 fa fb have "\<bar>round_double x\<bar> < 2 powi 1024" by (simp add: abs_if)
  then show "to_double x = Fin (round_double x)" by (rule to_double_Fin)
qed

lemma to_double_exact:
  assumes "x = of_int m * 2 powi e" "\<bar>m\<bar> < 2 ^ 53" "- 1074 \<le> e" "\<bar>x\<bar> < 2 powi 1024"
  shows "to_double x = Fin x"
proof -
  have "round_double x = x" using assms(1-3) by (rule round_double_exactI)
  with to_double_Fin [of x] assms(4) show ?thesis by simp
qed

section \<open>Properties of \<open>trunc100\<close>\<close>

lemma round_double_of_int: "\<bar>n\<bar> < 2 ^ 53 \<Longrightarrow> round_double (of_int n) = of_int n"
  by (rule round_double_exactI [where m = n and e = 0]) simp_all

lemma round_double_hundred: "\<bar>k\<bar> \<le> 2 ^ 48 \<Longrightarrow> round_double (of_int (100 * k)) = of_int (100 * k)"
  by (rule round_double_exactI [where m = "25 * k" and e = 2]) simp_all

lemma round_double_pow2: "- 1074 \<le> n \<Longrightarrow> round_double (2 powi n) = 2 powi n"
  by (rule round_double_exactI [where m = 1 and e = n]) simp_all

lemma hundreds_of_int: "hundreds (of_int (100 * k))"
  unfolding hundreds_def by (simp only: floor_of_int) simp

lemma hundredsE: "hundreds x \<Longrightarrow> \<exists>k. x = of_int (100 * k)"
proof -
  assume h: "hundreds x"
  then have "100 dvd \<lfloor>x\<rfloor>" by (simp add: hundreds_def mod_eq_0_iff_dvd)
  then obtain k where "\<lfloor>x\<rfloor> = 100 * k" by (rule dvdE)
  with h have "x = of_int (100 * k)" by (simp add: hundreds_def)
  then show ?thesis ..
qed

lemma hundreds_0: "hundreds 0"
  using hundreds_of_int [of 0] by simp

lemma hundreds_add: "hundreds x \<Longrightarrow> hundreds y \<Longrightarrow> hundreds (x + y)"
proof -
  assume "hundreds x" "hundreds y"
  then obtain a b where "x = of_int (100 * a)" "y = of_int (100 * b)"
    by (blast dest: hundredsE)
  then have "x + y = of_int (100 * (a + b))" by (simp add: algebra_simps)
  then show ?thesis by (simp only: hundreds_of_int)
qed

lemma truncateToHundred_le: "truncateToHundred x \<le> x"
proof -
  have "of_int \<lfloor>x / 100\<rfloor> \<le> x / 100" by (rule of_int_floor_le)
  then show ?thesis by (simp add: truncateToHundred_def)
qed



lemma trunc100_JNum_Fin:
  "trunc100 (JNum (Fin z)) = js_mul (js_floor (js_div (Fin z) (Fin 100))) (Fin 100)"
  by (simp add: trunc100_def js_or_def)

lemma trunc100_floor:
  assumes lo: "of_int m \<le> z / 100" and hi: "z / 100 \<le> d" and d1: "d < of_int m + 1"
    and d: "round_double d = d" and m: "\<bar>m\<bar> \<le> 2 ^ 48"
  shows "trunc100 (JNum (Fin z)) = Fin (of_int (100 * m))"
proof -
  have rm: "round_double (of_int m) = of_int m"
    using m by (intro round_double_of_int) simp
  from m have m1: "- (2 ^ 48) \<le> m" and m2: "m \<le> 2 ^ 48" by linarith+
  have "- (2 powi 1024) < (of_int (- (2 ^ 48)) :: rat)" by simp
  also have "(of_int (- (2 ^ 48)) :: rat) \<le> of_int m" using m1 by (simp only: of_int_le_iff)
  finally have fa: "- (2 powi 1024) < (of_int m :: rat)" .
  have "(of_int m :: rat) \<le> of_int (2 ^ 48)" using m2 by (simp only: of_int_le_iff)
  with d1 have "d < of_int (2 ^ 48) + 1" by simp
  also have "\<dots> < 2 powi 1024" by simp
  finally have fb: "d < 2 powi 1024" .
  note b = to_double_between [OF rm d lo hi fa fb]
  let ?q = "round_double (z / 100)"
  have "\<lfloor>?q\<rfloor> = m"
    using b(2) b(3) d1 by (intro floor_unique) simp_all
  then have fl: "js_floor (js_div (Fin z) (Fin 100)) = Fin (of_int m)"
    by (simp add: js_div_def js_floor_def b(1))
  have "to_double (of_int m * 100) = Fin (of_int m * 100)"
  proof (rule to_double_exact [where m = "25 * m" and e = 2])
    show "of_int m * 100 = (of_int (25 * m) :: rat) * 2 powi 2" by simp
    show "\<bar>25 * m\<bar> < 2 ^ 53" using m by simp
    show "- 1074 \<le> (2::int)" by simp
    have "\<bar>100 * m\<bar> \<le> 100 * 2 ^ 48" using m by simp
    then have "(of_int \<bar>100 * m\<bar> :: rat) \<le> of_int (100 * 2 ^ 48)" by (simp only: of_int_le_iff)
    moreover have "\<bar>(of_int m :: rat) * 100\<bar> = of_int \<bar>100 * m\<bar>" by (simp add: abs_mult)
    ultimately have "\<bar>(of_int m :: rat) * 100\<bar> \<le> of_int (100 * 2 ^ 48)" by simp
    also have "\<dots> < 2 powi 1024" by simp
    finally show "\<bar>(of_int m :: rat) * 100\<bar> < 2 powi 1024" .
  qed
  then show ?thesis
    by (simp add: trunc100_JNum_Fin fl js_mul_def mult.commute)
qed

lemma trunc100_hundreds:
  assumes h: "hundreds z" and b: "\<bar>z\<bar> \<le> 2 ^ 54"
  shows "trunc100 (JNum (Fin z)) = Fin z"
proof -
  from h obtain k where z: "z = of_int (100 * k)" by (blast dest: hundredsE)
  have "(of_int \<bar>100 * k\<bar> :: rat) \<le> of_int (2 ^ 54)" using b by (simp add: z)
  then have "\<bar>100 * k\<bar> \<le> 2 ^ 54" by (simp only: of_int_le_iff)
  then have k: "\<bar>k\<bar> \<le> 2 ^ 48" by simp
  have "trunc100 (JNum (Fin z)) = Fin (of_int (100 * k))"
  proof (rule trunc100_floor [where d = "of_int k"])
    show "of_int k \<le> z / 100" by (simp add: z)
    show "z / 100 \<le> of_int k" by (simp add: z)
    show "(of_int k :: rat) < of_int k + 1" by simp
    show "round_double (of_int k) = of_int k" using k by (intro round_double_of_int) simp
    show "\<bar>k\<bar> \<le> 2 ^ 48" by (rule k)
  qed
  then show ?thesis by (simp only: z)
qed

lemma trunc100_nonfinite:
  "trunc100 (JNum NaN) = Fin 0" "trunc100 (JNum PInf) = PInf" "trunc100 (JNum NInf) = NInf"
  "trunc100 JUndefined = Fin 0" "trunc100 JNull = Fin 0" "trunc100 (JBool b) = Fin 0"
  "trunc100 JPlainObject = NaN"
proof -
  have z: "to_double 0 = Fin 0" by (simp add: to_double_Fin)
  have b: "trunc100 (JNum (Fin 1)) = Fin (of_int (100 * 0))"
  proof (rule trunc100_floor [where d = "2 powi (- 1)"])
    show "round_double (2 powi (- 1)) = 2 powi (- 1)" by (rule round_double_pow2) simp
  qed (simp_all add: power_int_minus)
  show "trunc100 (JNum NaN) = Fin 0" "trunc100 JUndefined = Fin 0" "trunc100 JNull = Fin 0"
    by (simp_all add: trunc100_def js_or_def js_div_def js_floor_def js_mul_def z)
  show "trunc100 (JNum PInf) = PInf" "trunc100 (JNum NInf) = NInf" "trunc100 JPlainObject = NaN"
    by (simp_all add: trunc100_def js_or_def js_div_def js_floor_def js_mul_def js_sign_def inf_of_sign_def)
  show "trunc100 (JBool b) = Fin 0"
  proof (cases b)
    case True
    then have "trunc100 (JBool b) = trunc100 (JNum (Fin 1))" by (simp add: trunc100_def js_or_def)
    with b show ?thesis by simp
  next
    case False
    then show ?thesis by (simp add: trunc100_def js_or_def js_div_def js_floor_def js_mul_def z)
  qed
qed

lemma to_double_FinD: "to_double x = Fin r \<Longrightarrow> r = round_double x"
  by (simp add: to_double_def Let_def split: if_splits)

lemma to_double_hundreds:
  assumes h: "hundreds x" and b: "\<bar>x\<bar> \<le> 2 ^ 54"
  shows "to_double x = Fin x"
proof -
  from h obtain k where x: "x = of_int (100 * k)" by (blast dest: hundredsE)
  have "(of_int \<bar>100 * k\<bar> :: rat) \<le> of_int (2 ^ 54)" using b by (simp add: x)
  then have "\<bar>100 * k\<bar> \<le> 2 ^ 54" by (simp only: of_int_le_iff)
  then have k: "\<bar>k\<bar> \<le> 2 ^ 48" by simp
  have "round_double x = x" unfolding x using k by (rule round_double_hundred)
  moreover have "\<bar>x\<bar> < 2 powi 1024" using b by simp
  ultimately show ?thesis using to_double_Fin [of x] by simp
qed

lemma js_add_hundreds:
  "hundreds a \<Longrightarrow> hundreds b \<Longrightarrow> \<bar>a + b\<bar> \<le> 2 ^ 54 \<Longrightarrow> js_add (Fin a) (Fin b) = Fin (a + b)"
  by (simp add: js_add_def to_double_hundreds hundreds_add)

lemma trunc100_finite_hundreds:
  assumes t: "trunc100 (JNum v) = Fin r" and b: "\<bar>r\<bar> < 2 ^ 54"
  shows "hundreds r"
proof (cases v)
  case NaN
  with t show ?thesis by (simp add: trunc100_nonfinite hundreds_0)
next
  case PInf
  with t show ?thesis by (simp add: trunc100_nonfinite)
next
  case NInf
  with t show ?thesis by (simp add: trunc100_nonfinite)
next
  case (Fin z)
  with t have t': "js_mul (js_floor (to_double (z / 100))) (Fin 100) = Fin r"
    by (simp add: trunc100_JNum_Fin js_div_def)
  then obtain q where q: "to_double (z / 100) = Fin q"
    by (cases "to_double (z / 100)")
       (simp_all add: js_floor_def js_mul_def js_sign_def inf_of_sign_def)
  define k where "k = \<lfloor>q\<rfloor>"
  from t' have "to_double (of_int k * 100) = Fin r"
    by (simp add: q js_floor_def js_mul_def k_def)
  then have r: "r = round_double (of_int (100 * k))"
    by (simp add: to_double_FinD mult.commute)
  have p54: "round_double (2 ^ 54) = 2 ^ 54"
    using round_double_pow2 [of 54] by simp
  have hi: "(of_int (100 * k) :: rat) < 2 ^ 54"
  proof (rule ccontr)
    assume "\<not> (of_int (100 * k) :: rat) < 2 ^ 54"
    then have "2 ^ 54 \<le> (of_int (100 * k) :: rat)" by simp
    from round_double_cross_ge [OF p54 this] b show False by (simp add: r)
  qed
  have lo: "- (2 ^ 54) < (of_int (100 * k) :: rat)"
  proof (rule ccontr)
    assume "\<not> - (2 ^ 54) < (of_int (100 * k) :: rat)"
    then have *: "(of_int (100 * k) :: rat) \<le> - (2 ^ 54)" by simp
    have "round_double (- (2 ^ 54)) = - (2 ^ 54)"
      by (simp only: round_double_minus p54)
    from round_double_cross_le [OF this *] b show False by (simp add: r)
  qed
  have "(of_int (100 * k) :: rat) < of_int (2 ^ 54)" using hi by simp
  then have 1: "100 * k < 2 ^ 54" by (simp only: of_int_less_iff)
  have "(of_int (- (2 ^ 54)) :: rat) < of_int (100 * k)" using lo by simp
  then have 2: "- (2 ^ 54) < 100 * k" by (simp only: of_int_less_iff)
  from 1 2 have "\<bar>k\<bar> \<le> 2 ^ 48" by simp
  then have "r = of_int (100 * k)" unfolding r by (rule round_double_hundred)
  then show ?thesis by (simp only: hundreds_of_int)
qed

lemma trunc100_bounded:
  assumes z: "\<bar>z\<bar> \<le> 2 ^ 50"
  shows "\<exists>k. trunc100 (JNum (Fin z)) = Fin (of_int (100 * k)) \<and> \<bar>k\<bar> \<le> 2 ^ 44"
proof -
  have a: "round_double (of_int (- (2 ^ 44))) = of_int (- (2 ^ 44))"
    by (rule round_double_of_int) simp
  have b: "round_double (of_int (2 ^ 44)) = of_int (2 ^ 44)"
    by (rule round_double_of_int) simp
  have lo: "of_int (- (2 ^ 44)) \<le> z / 100" using z by simp
  have hi: "z / 100 \<le> of_int (2 ^ 44)" using z by simp
  have fa: "- (2 powi 1024) < (of_int (- (2 ^ 44)) :: rat)" by simp
  have fb: "(of_int (2 ^ 44) :: rat) < 2 powi 1024" by simp
  note bt = to_double_between [OF a b lo hi fa fb]
  note fin = bt(1)
  define k where "k = \<lfloor>round_double (z / 100)\<rfloor>"
  have "- (2 ^ 44) \<le> k" unfolding k_def using bt(2) by (simp only: le_floor_iff)
  moreover have "k \<le> 2 ^ 44" unfolding k_def
    using bt(3) floor_mono [of "round_double (z / 100)" "of_int (2 ^ 44)"] by (simp only: floor_of_int)
  ultimately have k: "\<bar>k\<bar> \<le> 2 ^ 44" by simp
  then have "\<bar>k\<bar> \<le> 2 ^ 48" by simp
  then have rd: "round_double (of_int (100 * k)) = of_int (100 * k)" by (rule round_double_hundred)
  have "\<bar>100 * k\<bar> \<le> 100 * 2 ^ 44" using k by simp
  then have "(of_int \<bar>100 * k\<bar> :: rat) \<le> of_int (100 * 2 ^ 44)" by (simp only: of_int_le_iff)
  then have "\<bar>(of_int (100 * k) :: rat)\<bar> < 2 powi 1024" by simp
  with to_double_Fin [of "of_int (100 * k)"] rd
  have "to_double (of_int (100 * k)) = Fin (of_int (100 * k))" by simp
  then have "trunc100 (JNum (Fin z)) = Fin (of_int (100 * k))"
    by (simp add: trunc100_JNum_Fin js_div_def fin js_floor_def js_mul_def k_def mult.commute)
  with k show ?thesis by blast
qed

lemma vat_rate: "to_double (7 / 100) = Fin (1261007895663739 / 18014398509481984)"
  by code_simp


lemma vat_bounded:
  assumes s: "\<bar>s\<bar> \<le> 2 ^ 53"
  shows "\<exists>k. trunc100 (JNum (js_mul (Fin s) (to_double (7 / 100)))) = Fin (of_int (100 * k)) \<and> \<bar>k\<bar> \<le> 2 ^ 44"
proof -
  define c :: rat where "c = 1261007895663739 / 18014398509481984"
  have a: "round_double (of_int (- (2 ^ 50))) = of_int (- (2 ^ 50))"
    by (rule round_double_of_int) simp
  have b: "round_double (of_int (2 ^ 50)) = of_int (2 ^ 50)"
    by (rule round_double_of_int) simp
  have lo: "of_int (- (2 ^ 50)) \<le> s * c" using s by (simp add: c_def)
  have hi: "s * c \<le> of_int (2 ^ 50)" using s by (simp add: c_def)
  have fa: "- (2 powi 1024) < (of_int (- (2 ^ 50)) :: rat)" by simp
  have fb: "(of_int (2 ^ 50) :: rat) < 2 powi 1024" by simp
  note bt = to_double_between [OF a b lo hi fa fb]
  have "js_mul (Fin s) (to_double (7 / 100)) = js_mul (Fin s) (Fin c)"
    by (simp only: vat_rate c_def)
  also have "\<dots> = to_double (s * c)" by (simp add: js_mul_def)
  also have "\<dots> = Fin (round_double (s * c))" by (rule bt(1))
  finally have mul: "js_mul (Fin s) (to_double (7 / 100)) = Fin (round_double (s * c))" .
  have "\<bar>round_double (s * c)\<bar> \<le> 2 ^ 50" using bt(2) bt(3) by simp
  from trunc100_bounded [OF this] show ?thesis
    by (simp only: mul)
qed

lemma trunc100_exact:
  assumes dx: "round_double x = x" and bx: "\<bar>x\<bar> \<le> 2 ^ 53"
    and nz: "0 \<le> x \<or> round_double (x / 100) \<noteq> 0"
  shows "trunc100 (JNum (Fin x)) = Fin (truncateToHundred x)"
proof -
  define y where "y = x / 100"
  define m where "m = \<lfloor>y\<rfloor>"
  define q where "q = round_double y"
  have x: "x = 100 * y" by (simp add: y_def)
  have my: "of_int m \<le> y" "y < of_int m + 1" unfolding m_def by linarith+
  have yb: "- (2 ^ 47) \<le> y" "y \<le> 2 ^ 47" using bx by (simp_all add: y_def)
  have "of_int (- (2 ^ 47)) \<le> y" using yb(1) by simp
  then have m_lo: "- (2 ^ 47) \<le> m" unfolding m_def by (simp only: le_floor_iff)
  have "y < of_int (2 ^ 47 + 1)" using yb(2) by simp
  then have "m < 2 ^ 47 + 1" unfolding m_def by (simp only: floor_less_iff)
  then have m_hi: "m \<le> 2 ^ 47" by simp
  have rm: "round_double (of_int m) = of_int m"
    using m_lo m_hi by (intro round_double_of_int) simp
  have rK: "round_double (of_int (m + 1)) = of_int (m + 1)"
    using m_lo m_hi by (intro round_double_of_int) simp
  have yK: "y \<le> of_int (m + 1)" using my(2) by simp
  have q_lo: "of_int m \<le> q" unfolding q_def by (rule round_double_cross_ge [OF rm my(1)])
  have q_hi: "q \<le> of_int (m + 1)" unfolding q_def by (rule round_double_cross_le [OF rK yK])
  have q_ne: "q \<noteq> of_int (m + 1)"
  proof
    assume qK: "q = of_int (m + 1)"
    show False
    proof (cases "2 powi (- 1022) \<le> \<bar>y\<bar>")
      case False
      then have t: "y \<le> 2 powi (- 1022)" "- (2 powi (- 1022)) \<le> y" by simp_all
      have rp: "round_double (2 powi (- 1022)) = 2 powi (- 1022)"
        by (rule round_double_pow2) simp
      have rn: "round_double (- (2 powi (- 1022))) = - (2 powi (- 1022))"
        by (simp only: round_double_minus rp)
      have small: "(2::rat) powi (- 1022) < 1"
        using pow2_less_iff [of "- 1022" 0] by simp
      have "q \<le> 2 powi (- 1022)" unfolding q_def by (rule round_double_cross_le [OF rp t(1)])
      with small have "q < 1" by simp
      moreover have "- (2 powi (- 1022)) \<le> q" unfolding q_def by (rule round_double_cross_ge [OF rn t(2)])
      with small have "- 1 < q" by simp
      ultimately have "(of_int (- 1) :: rat) < of_int (m + 1)" "(of_int (m + 1) :: rat) < of_int 1"
        using qK by simp_all
      then have "- 1 < m + 1" "m + 1 < 1" by (simp_all only: of_int_less_iff)
      then have m: "m = - 1" by simp
      with qK have q0: "q = 0" by simp
      from m my(2) have "y < 0" by simp
      then have "x < 0" by (simp add: x)
      with nz have "q \<noteq> 0" by (simp add: q_def y_def)
      with q0 show False by simp
    next
      case True
      define e where "e = expo y"
      have y0: "y \<noteq> 0" using True pow2_pos [of "- 1022"] by auto
      have L: "2 powi (e + 52) \<le> \<bar>y\<bar>" unfolding e_def by (rule expo_lower [OF True])
      have "\<bar>q - y\<bar> \<le> 2 powi e / 2" unfolding q_def e_def by (rule round_double_err [OF y0])
      then have "q - y \<le> 2 powi e / 2" by linarith
      then have "of_int (m + 1) - y \<le> 2 powi e / 2" by (simp only: qK)
      then have gap_hi: "of_int (100 * (m + 1)) - x \<le> 50 * 2 powi e" by (simp add: x)
      have gap_pos: "0 < of_int (100 * (m + 1)) - x" using my(2) by (simp add: x)
      have p58: "(2::rat) powi (e + 6 + 52) = 64 * 2 powi (e + 52)"
        by (simp add: pow2_add)
      have x0: "x \<noteq> 0" using y0 by (simp add: x)
      have "2 powi (e + 6 + 52) \<le> \<bar>x\<bar>"
        unfolding p58 using L by (simp add: x abs_mult)
      then have "e + 6 \<le> expo x" by (rule expo_geI [OF x0])
      then have "x = 0 \<or> e + 6 \<le> expo x" ..
      from round_double_grid [OF dx this] obtain jx where jx: "x = of_int jx * 2 powi (e + 6)" ..
      define D :: rat where "D = of_int (100 * (m + 1))"
      have dD: "round_double D = D"
        unfolding D_def using m_lo m_hi by (intro round_double_hundred) simp
      have e52: "- 1074 \<le> e + 52" using expo_ge [of y] by (simp add: e_def)
      have rp: "round_double (2 powi (e + 52)) = 2 powi (e + 52)"
        by (rule round_double_pow2 [OF e52])
      have rn: "round_double (- (2 powi (e + 52))) = - (2 powi (e + 52))"
        by (simp only: round_double_minus rp)
      have qL: "2 powi (e + 52) \<le> \<bar>q\<bar>"
      proof (cases "0 < y")
        case True
        with L have "2 powi (e + 52) \<le> y" by simp
        from round_double_cross_ge [OF rp this] show ?thesis by (simp add: q_def)
      next
        case False
        with L have "y \<le> - (2 powi (e + 52))" by simp
        from round_double_cross_le [OF rn this] show ?thesis by (simp add: q_def)
      qed
      have Dq: "D = 100 * q" by (simp add: D_def qK)
      have "2 powi (e + 6 + 52) \<le> \<bar>D\<bar>"
        unfolding p58 using qL by (simp add: Dq abs_mult)
      moreover have "0 < \<bar>q\<bar>" by (rule less_le_trans [OF pow2_pos qL])
      then have D0: "D \<noteq> 0" by (simp add: Dq)
      ultimately have "e + 6 \<le> expo D" by (intro expo_geI)
      then have "D = 0 \<or> e + 6 \<le> expo D" ..
      from round_double_grid [OF dD this] obtain jD where jD: "D = of_int jD * 2 powi (e + 6)" ..
      have diff: "D - x = of_int (jD - jx) * 2 powi (e + 6)"
        by (subst jD, subst jx) (simp add: algebra_simps)
      from gap_pos have "0 < of_int (jD - jx) * (2::rat) powi (e + 6)"
        by (simp only: diff [symmetric] D_def)
      then have "(0::rat) < of_int (jD - jx)" by (rule zero_less_mult_pos2) simp
      then have "0 < jD - jx" by (simp only: of_int_0_less_iff)
      then have "1 \<le> jD - jx" by simp
      then have "(of_int 1 :: rat) \<le> of_int (jD - jx)" by (simp only: of_int_le_iff)
      then have "of_int 1 * (2::rat) powi (e + 6) \<le> of_int (jD - jx) * 2 powi (e + 6)"
        by (rule mult_right_mono) simp
      then have "(2::rat) powi (e + 6) \<le> D - x" by (simp add: diff)
      also have "D - x \<le> 50 * 2 powi e" using gap_hi by (simp only: D_def)
      finally have "64 * (2::rat) powi e \<le> 50 * 2 powi e" by (simp add: pow2_add)
      then show False using pow2_pos [of e] by simp
    qed
  qed
  with q_hi have q_lt: "q < of_int m + 1" by simp
  have fl: "\<lfloor>q\<rfloor> = m" using q_lo q_lt by (intro floor_unique)
  have "- (2 powi 1024) < (of_int (- (2 ^ 47)) :: rat)" by simp
  also have "(of_int (- (2 ^ 47)) :: rat) \<le> of_int m" using m_lo by (simp only: of_int_le_iff)
  finally have fa: "- (2 powi 1024) < (of_int m :: rat)" .
  have "m + 1 \<le> 2 ^ 47 + 1" using m_hi by simp
  then have "(of_int (m + 1) :: rat) \<le> of_int (2 ^ 47 + 1)" by (simp only: of_int_le_iff)
  also have "\<dots> < 2 powi 1024" by simp
  finally have fb: "(of_int (m + 1) :: rat) < 2 powi 1024" .
  have fin: "to_double y = Fin q"
    unfolding q_def by (rule to_double_between(1) [OF rm rK my(1) yK fa fb])
  have "\<bar>100 * m\<bar> \<le> 2 ^ 54" using m_lo m_hi by simp
  then have "(of_int \<bar>100 * m\<bar> :: rat) \<le> of_int (2 ^ 54)" by (simp only: of_int_le_iff)
  then have "\<bar>(of_int (100 * m) :: rat)\<bar> \<le> of_int (2 ^ 54)" by simp
  then have "to_double (of_int (100 * m)) = Fin (of_int (100 * m))"
    by (intro to_double_hundreds hundreds_of_int) simp
  then have "trunc100 (JNum (Fin x)) = Fin (of_int (100 * m))"
    by (simp add: trunc100_JNum_Fin js_div_def y_def [symmetric] fin js_floor_def fl js_mul_def mult.commute)
  moreover have "truncateToHundred x = of_int (100 * m)"
    by (simp add: truncateToHundred_def m_def y_def)
  ultimately show ?thesis by simp
qed

lemma round_double_idem: "round_double (round_double x) = round_double x"
proof (cases "x = 0")
  case True
  then show ?thesis by simp
next
  case False
  define e where "e = expo x"
  define j where "j = rne (x / 2 powi e)"
  have r: "round_double x = of_int j * 2 powi e"
    using False by (simp add: round_double_alt j_def e_def)
  have e: "- 1074 \<le> e" unfolding e_def by (rule expo_ge)
  from expo_upper [OF False] have "\<bar>x\<bar> < 2 powi e * 2 ^ 53"
    by (simp add: e_def pow2_add)
  then have "\<bar>x\<bar> / 2 powi e < 2 ^ 53" by (simp add: pos_divide_less_eq mult.commute)
  moreover define u where "u = x / 2 powi e"
  ultimately have "\<bar>u\<bar> < 2 ^ 53" by (simp add: abs_divide)
  then have "u \<le> 2 ^ 53" "- (2 ^ 53) \<le> u" by linarith+
  then have "x / 2 powi e \<le> of_int (2 ^ 53)" "of_int (- (2 ^ 53)) \<le> x / 2 powi e"
    by (simp_all add: u_def)
  then have "j \<le> 2 ^ 53" "- (2 ^ 53) \<le> j" unfolding j_def by (blast intro: rne_le rne_ge)+
  then consider "\<bar>j\<bar> < 2 ^ 53" | "j = 2 ^ 53" | "j = - (2 ^ 53)" by linarith
  then have "round_double (of_int j * 2 powi e) = of_int j * 2 powi e"
  proof cases
    case 1
    show ?thesis by (rule round_double_exactI [OF refl 1 e])
  next
    case 2
    show ?thesis
      by (rule round_double_exactI [where m = 1 and e = "e + 53"]) (use e in \<open>simp_all add: 2 pow2_add\<close>)
  next
    case 3
    show ?thesis
      by (rule round_double_exactI [where m = "- 1" and e = "e + 53"]) (use e in \<open>simp_all add: 3 pow2_add\<close>)
  qed
  then show ?thesis by (simp only: r)
qed

lemma round_double_tiny:
  assumes "\<bar>y\<bar> \<le> 2 powi (- 1075)"
  shows "round_double y = 0"
proof (cases "y = 0")
  case True
  then show ?thesis by simp
next
  case False
  have half: "(2::rat) powi (- 1075) = 2 powi (- 1074) / 2"
    using pow2_diff [of "- 1074" 1] by simp
  have "\<bar>y\<bar> < 2 powi (- 1074)"
    using assms pow2_pos [of "- 1074"] unfolding half by linarith
  then have "ilog2 \<bar>y\<bar> < - 1074" using False by (intro ilog2_ltI) simp_all
  then have e: "expo y = - 1074" by (simp add: expo_def)
  define t where "t = y / 2 powi (- 1074)"
  have "\<bar>t\<bar> = \<bar>y\<bar> / 2 powi (- 1074)" by (simp add: t_def abs_divide)
  also have "\<dots> \<le> 1 / 2"
    using assms unfolding half by (simp add: pos_divide_le_eq)
  finally have t: "- (1 / 2) \<le> t" "t \<le> 1 / 2" by linarith+
  have "rne t = 0"
  proof (cases "0 \<le> t")
    case True
    with t have "\<lfloor>t\<rfloor> = 0" by (intro floor_unique) simp_all
    with t show ?thesis by (simp add: rne_def)
  next
    case False
    with t have "\<lfloor>t\<rfloor> = - 1" by (intro floor_unique) simp_all
    with t show ?thesis by (simp add: rne_def Let_def)
  qed
  then show ?thesis using False by (simp add: round_double_alt e t_def)
qed

lemma trunc100_tiny_negative:
  "round_double (- pow2 (- 1074)) = - pow2 (- 1074)"
  "trunc100 (JNum (Fin (- pow2 (- 1074)))) = Fin 0"
proof -
  have r: "round_double (2 powi (- 1074)) = 2 powi (- 1074)"
    by (rule round_double_pow2) simp
  show "round_double (- pow2 (- 1074)) = - pow2 (- 1074)"
    by (simp only: pow2_eq round_double_minus r)
  have half: "(2::rat) powi (- 1075) = 2 powi (- 1074) / 2"
    using pow2_diff [of "- 1074" 1] by simp
  have "\<bar>- (2 powi (- 1074)) / 100\<bar> = (2::rat) powi (- 1074) / 100"
    by (simp add: abs_divide)
  also have "\<dots> \<le> 2 powi (- 1075)"
    unfolding half using pow2_pos [of "- 1074"] by linarith
  finally have "round_double (- (2 powi (- 1074)) / 100) = 0" by (rule round_double_tiny)
  then have "to_double (- (2 powi (- 1074)) / 100) = Fin 0"
    using to_double_Fin [of "- (2 powi (- 1074)) / 100"] by simp
  moreover have "to_double 0 = Fin 0" by (simp add: to_double_Fin)
  ultimately have "js_mul (js_floor (js_div (Fin (- (2 powi (- 1074)))) (Fin 100))) (Fin 100) = Fin 0"
    by (simp add: js_div_def js_floor_def js_mul_def)
  then show "trunc100 (JNum (Fin (- pow2 (- 1074)))) = Fin 0"
    by (simp only: pow2_eq trunc100_JNum_Fin)
qed

lemma trunc100_large:
  "round_double 900719925474099328 = 900719925474099328"
  "trunc100 (JNum (Fin 900719925474099328)) = Fin 900719925474099456"
  "truncateToHundred 900719925474099328 = 900719925474099300"
  by code_simp+

text \<open>
  C8 (amended). Let \<open>x\<close> be a binary64 number with \<open>|x| \<le> 2^53\<close> that is not a negative
  number so small that \<open>x / 100\<close> rounds to zero. Then \<open>trunc100(x)\<close> is
  \<open>floor(x / 100) * 100\<close> computed exactly: a multiple of 100 and at most \<open>x\<close>.
\<close>

theorem C8_truncation_law:
  assumes "round_double x = x" and "\<bar>x\<bar> \<le> 2 ^ 53"
    and "0 \<le> x \<or> round_double (x / 100) \<noteq> 0"
  shows "trunc100 (JNum (Fin x)) = Fin (truncateToHundred x)
     \<and> truncateToHundred x = of_int (100 * \<lfloor>x / 100\<rfloor>)
     \<and> truncateToHundred x \<le> x"
  using trunc100_exact [OF assms] truncateToHundred_le [of x]
  by (simp add: truncateToHundred_def)

theorem C8_truncation_law_witness:
  "round_double 15150 = 15150 \<and> \<bar>15150 :: rat\<bar> \<le> 2 ^ 53 \<and> (0::rat) \<le> 15150
   \<and> trunc100 (JNum (Fin 15150)) = Fin 15100
   \<and> truncateToHundred 15150 = of_int (100 * 151) \<and> (15100::rat) \<le> 15150"
proof -
  have r: "round_double 15150 = 15150" by code_simp
  have t: "truncateToHundred 15150 = 15100" by code_simp
  have f: "\<lfloor>(15150::rat) / 100\<rfloor> = 151" by code_simp
  from C8_truncation_law [of 15150] r t f show ?thesis by simp
qed

text \<open>
  Beyond the bound the law fails: 900719925474099328 is a binary64 number, the event
  schema admits it as an amount, its quotient by 100 rounds up to 9007199254740994, and
  the product of that with 100 rounds to 900719925474099456, which \<open>trunc100\<close> returns: a
  number above the argument and no multiple of 100. The least negative number, \<open>-2^-1074\<close>, has a quotient
  that rounds to zero, and \<open>trunc100\<close> returns 0, above the number.
\<close>

theorem C8_counterexample:
  "round_double 900719925474099328 = 900719925474099328
   \<and> trunc100 (JNum (Fin 900719925474099328)) = Fin 900719925474099456
   \<and> (900719925474099328 :: rat) < 900719925474099456
   \<and> (900719925474099456 :: int) mod 100 = 56
   \<and> truncateToHundred 900719925474099328 = 900719925474099300
   \<and> round_double (- pow2 (- 1074)) = - pow2 (- 1074)
   \<and> trunc100 (JNum (Fin (- pow2 (- 1074)))) = Fin 0
   \<and> - pow2 (- 1074) < 0"
  using trunc100_large trunc100_tiny_negative by (simp add: pow2_eq)

section \<open>Queries and frames\<close>

lemma first_desc_None: "first_desc key xs = None \<longleftrightarrow> xs = []"
  by (induction xs) (auto split: option.splits)

lemma first_desc_Some:
  "first_desc key xs = Some y \<Longrightarrow> y \<in> set xs \<and> (\<forall>x\<in>set xs. key x \<le> key y)"
proof (induction xs arbitrary: y)
  case Nil
  then show ?case by simp
next
  case (Cons a xs)
  show ?case
  proof (cases "first_desc key xs")
    case None
    then have "xs = []" by (simp add: first_desc_None)
    with Cons.prems None show ?thesis by simp
  next
    case (Some z)
    from Cons.IH [OF Some] have z: "z \<in> set xs" "\<forall>x\<in>set xs. key x \<le> key z" by simp_all
    show ?thesis
    proof (cases "key z \<le> key a")
      case True
      with Cons.prems Some have "y = a" by simp
      with z True show ?thesis by auto
    next
      case False
      with Cons.prems Some have "y = z" by simp
      with z False show ?thesis by auto
    qed
  qed
qed

lemma fresh_id_gt: "i \<in> set ids \<Longrightarrow> i < fresh_id ids"
proof -
  have "\<And>a. i \<in> set ids \<Longrightarrow> i \<le> fold max ids a"
  proof (induction ids)
    case Nil then show ?case by simp
  next
    case (Cons b ids)
    have mono: "\<And>a xs. a \<le> fold max xs (a::nat)"
    proof -
      fix a :: nat and xs show "a \<le> fold max xs a"
        by (induction xs arbitrary: a) (auto intro: order_trans [OF max.cobounded2])
    qed
    show ?case
    proof (cases "i = b")
      case True
      have "b \<le> max b a" by simp
      also have "\<dots> \<le> fold max ids (max b a)" by (rule mono)
      finally show ?thesis using True by simp
    next
      case False
      with Cons.prems have "i \<in> set ids" by simp
      then show ?thesis using Cons.IH by simp
    qed
  qed
  then show "i \<in> set ids \<Longrightarrow> i < fresh_id ids" by (simp add: fresh_id_def less_Suc_eq_le)
qed

lemma resolveInvoiceSequence_frame:
  "invoices (snd (resolveInvoiceSequence s c m)) = invoices s"
  "invoice_items (snd (resolveInvoiceSequence s c m)) = invoice_items s"
  "billing_events (snd (resolveInvoiceSequence s c m)) = billing_events s"
  "exchange_rates (snd (resolveInvoiceSequence s c m)) = exchange_rates s"
  "service_catalog (snd (resolveInvoiceSequence s c m)) = service_catalog s"
  by (simp_all add: resolveInvoiceSequence_def Let_def split: option.splits)

lemma event_loop_fst:
  "fst (event_loop fx iid evs (tbl, g)) =
     fold (\<lambda>e t. stamp_event (normalizedAmount fx e) fx iid (be_id e) t) evs tbl"
  by (induction evs arbitrary: tbl g) (simp_all add: Let_def)

lemma event_loop_snd:
  "snd (event_loop fx iid evs (tbl, g)) =
     fold (\<lambda>e. group_add (be_service_code e) (num_or0 (be_qty e)) (normalizedAmount fx e)) evs g"
  by (induction evs arbitrary: tbl g) (simp_all add: Let_def)

lemma write_invoice_events:
  "billing_events (snd (write_invoice p fid fx evs s)) =
     fold (\<lambda>e t. stamp_event (normalizedAmount fx e) fx (fresh_id (map inv_id (invoices s))) (be_id e) t)
       evs (billing_events s)"
  by (simp add: write_invoice_def Let_def case_prod_unfold resolveInvoiceSequence_frame event_loop_fst)

lemma write_invoice_rates:
  "exchange_rates (snd (write_invoice p fid fx evs s)) = exchange_rates s"
  by (simp add: write_invoice_def Let_def case_prod_unfold resolveInvoiceSequence_frame)

section \<open>Lifecycle\<close>

lemma find_live_invoice:
  "distinct (map inv_id xs) \<Longrightarrow> r \<in> set xs \<Longrightarrow> \<not> inv_deleted r
   \<Longrightarrow> find (\<lambda>x. inv_id x = inv_id r \<and> \<not> inv_deleted x) xs = Some r"
proof (induction xs)
  case Nil
  then show ?case by simp
next
  case (Cons a xs)
  show ?case
  proof (cases "a = r")
    case True
    with Cons.prems show ?thesis by simp
  next
    case False
    with Cons.prems have r: "r \<in> set xs" by simp
    with Cons.prems have "inv_id a \<noteq> inv_id r" by auto
    with Cons r show ?thesis by simp
  qed
qed

lemma update_by_id:
  "distinct (map inv_id xs) \<Longrightarrow> r \<in> set xs
   \<Longrightarrow> map (\<lambda>x. if inv_id x = inv_id r then f x else x) xs = map (\<lambda>x. if x = r then f x else x) xs"
  by (rule map_cong) (auto simp: distinct_map dest: inj_onD)

lemma find_live_NoneI:
  "\<not> (\<exists>r\<in>set xs. inv_id r = i \<and> \<not> inv_deleted r)
   \<Longrightarrow> find (\<lambda>x. inv_id x = i \<and> \<not> inv_deleted x) xs = None"
  by (auto simp: find_None_iff)

lemma issue_cases:
  assumes "distinct (map inv_id (invoices s))"
  shows "(\<not> (\<exists>r\<in>set (invoices s). inv_id r = i \<and> \<not> inv_deleted r) \<longrightarrow> issue i s = (Inl NOT_FOUND, s))
    \<and> (\<forall>r\<in>set (invoices s). inv_id r = i \<and> \<not> inv_deleted r \<longrightarrow>
          issue i s =
            (if inv_status r = Draft
             then (Inr (i, Issued),
                   s\<lparr>invoices := map (\<lambda>x. if x = r then x\<lparr>inv_status := Issued\<rparr> else x) (invoices s)\<rparr>)
             else (Inl INVALID_STATUS, s)))"
proof (intro conjI impI ballI)
  assume "\<not> (\<exists>r\<in>set (invoices s). inv_id r = i \<and> \<not> inv_deleted r)"
  then show "issue i s = (Inl NOT_FOUND, s)"
    by (simp add: issue_def find_live_NoneI)
next
  fix r assume r: "r \<in> set (invoices s)" and "inv_id r = i \<and> \<not> inv_deleted r"
  then have i: "i = inv_id r" and live: "\<not> inv_deleted r" by simp_all
  from find_live_invoice [OF assms r live]
  show "issue i s =
            (if inv_status r = Draft
             then (Inr (i, Issued),
                   s\<lparr>invoices := map (\<lambda>x. if x = r then x\<lparr>inv_status := Issued\<rparr> else x) (invoices s)\<rparr>)
             else (Inl INVALID_STATUS, s))"
    unfolding i by (simp add: issue_def update_by_id [OF assms r])
qed

lemma mark_paid_cases:
  assumes "distinct (map inv_id (invoices s))"
  shows "(\<not> (\<exists>r\<in>set (invoices s). inv_id r = i \<and> \<not> inv_deleted r) \<longrightarrow> mark_paid i s = (Inl NOT_FOUND, s))
    \<and> (\<forall>r\<in>set (invoices s). inv_id r = i \<and> \<not> inv_deleted r \<longrightarrow>
          mark_paid i s =
            (if inv_status r = Issued
             then (Inr (i, Paid),
                   s\<lparr>invoices := map (\<lambda>x. if x = r then x\<lparr>inv_status := Paid\<rparr> else x) (invoices s)\<rparr>)
             else (Inl INVALID_STATUS, s)))"
proof (intro conjI impI ballI)
  assume "\<not> (\<exists>r\<in>set (invoices s). inv_id r = i \<and> \<not> inv_deleted r)"
  then show "mark_paid i s = (Inl NOT_FOUND, s)"
    by (simp add: mark_paid_def find_live_NoneI)
next
  fix r assume r: "r \<in> set (invoices s)" and "inv_id r = i \<and> \<not> inv_deleted r"
  then have i: "i = inv_id r" and live: "\<not> inv_deleted r" by simp_all
  from find_live_invoice [OF assms r live]
  show "mark_paid i s =
            (if inv_status r = Issued
             then (Inr (i, Paid),
                   s\<lparr>invoices := map (\<lambda>x. if x = r then x\<lparr>inv_status := Paid\<rparr> else x) (invoices s)\<rparr>)
             else (Inl INVALID_STATUS, s))"
    unfolding i by (simp add: mark_paid_def update_by_id [OF assms r])
qed

lemma status_monotone_mapI:
  assumes "invoices s' = map f (invoices s) @ ys"
    and "\<And>x. x \<in> set (invoices s) \<Longrightarrow> rank_kept x (f x)"
  shows "status_monotone s s'"
  using assms by (simp add: status_monotone_def list_all2_map2 list_all2_same)

lemma status_monotone_refl: "status_monotone s s"
  by (rule status_monotone_mapI [where f = id and ys = "[]"]) (simp_all add: rank_kept_def)

lemma status_monotone_issue:
  assumes "distinct (map inv_id (invoices s))"
  shows "status_monotone s (snd (issue i s))"
proof (cases "\<exists>r\<in>set (invoices s). inv_id r = i \<and> \<not> inv_deleted r")
  case False
  with issue_cases [OF assms, of i] show ?thesis by (simp add: status_monotone_refl)
next
  case True
  then obtain r where r: "r \<in> set (invoices s)" "inv_id r = i \<and> \<not> inv_deleted r" by blast
  show ?thesis
  proof (cases "inv_status r = Draft")
    case False
    with issue_cases [OF assms, of i] r show ?thesis by (simp add: status_monotone_refl)
  next
    case True
    with issue_cases [OF assms, of i] r
    have eq: "invoices (snd (issue i s)) = map (\<lambda>x. if x = r then x\<lparr>inv_status := Issued\<rparr> else x) (invoices s) @ []"
      by simp
    show ?thesis
      by (rule status_monotone_mapI [OF eq]) (simp add: rank_kept_def True)
  qed
qed

lemma status_monotone_mark_paid:
  assumes "distinct (map inv_id (invoices s))"
  shows "status_monotone s (snd (mark_paid i s))"
proof (cases "\<exists>r\<in>set (invoices s). inv_id r = i \<and> \<not> inv_deleted r")
  case False
  with mark_paid_cases [OF assms, of i] show ?thesis by (simp add: status_monotone_refl)
next
  case True
  then obtain r where r: "r \<in> set (invoices s)" "inv_id r = i \<and> \<not> inv_deleted r" by blast
  show ?thesis
  proof (cases "inv_status r = Issued")
    case False
    with mark_paid_cases [OF assms, of i] r show ?thesis by (simp add: status_monotone_refl)
  next
    case True
    with mark_paid_cases [OF assms, of i] r
    have eq: "invoices (snd (mark_paid i s)) = map (\<lambda>x. if x = r then x\<lparr>inv_status := Paid\<rparr> else x) (invoices s) @ []"
      by simp
    show ?thesis
      by (rule status_monotone_mapI [OF eq]) (simp add: rank_kept_def True)
  qed
qed

lemma status_monotone_mark_pending: "status_monotone s (snd (mark_pending ids s))"
  by (rule status_monotone_mapI [where f = id and ys = "[]"])
    (simp_all add: mark_pending_def Let_def rank_kept_def)

lemma status_monotone_duplicate: "status_monotone s (snd (duplicate_admin i s))"
proof -
  have "\<exists>ys. invoices (snd (duplicate_admin i s)) = map id (invoices s) @ ys"
    by (simp add: duplicate_admin_def Let_def case_prod_unfold resolveInvoiceSequence_frame
        split: option.splits)
  then obtain ys where "invoices (snd (duplicate_admin i s)) = map id (invoices s) @ ys" ..
  then show ?thesis by (rule status_monotone_mapI) (simp add: rank_kept_def)
qed

lemma write_invoice_invoices:
  "\<exists>f ys. invoices (snd (write_invoice p fid fx evs s)) = map f (invoices s) @ ys
     \<and> (\<forall>x. inv_id (f x) = inv_id x \<and> inv_status (f x) = inv_status x)"
proof -
  let ?iid = "fresh_id (map inv_id (invoices s))"
  obtain a b c where
    "invoices (snd (write_invoice p fid fx evs s))
       = map (\<lambda>i. if inv_id i = ?iid then i\<lparr>inv_subtotal_krw := a, inv_vat_krw := b, inv_total_krw := c\<rparr> else i)
           (invoices s @ [\<lparr>inv_id = ?iid, inv_client_id = client_id p,
                   inv_invoice_month = invoice_month p,
                   inv_invoice_no = (client_id p, invoice_month p, fst (resolveInvoiceSequence s (client_id p) (invoice_month p))),
                   inv_status = Draft, inv_invoice_date = invoice_date p,
                   inv_fx_rate_thbkrw = fx, inv_subtotal_krw = Fin 0, inv_vat_krw = Fin 0,
                   inv_total_krw = Fin 0, inv_created_by = created_by p,
                   inv_deleted = False\<rparr>])"
    by (simp add: write_invoice_def Let_def case_prod_unfold resolveInvoiceSequence_frame)
  then show ?thesis
    by (intro exI [where x = "\<lambda>i. if inv_id i = ?iid then i\<lparr>inv_subtotal_krw := a, inv_vat_krw := b, inv_total_krw := c\<rparr> else i"] exI conjI)
       (simp, simp)
qed

lemma generate_fresh_invoices:
  "\<exists>f ys. invoices (snd (generate_fresh p s)) = map f (invoices s) @ ys
     \<and> (\<forall>x. inv_id (f x) = inv_id x \<and> inv_status (f x) = inv_status x)"
proof (cases "fx_row s (invoice_date p)")
  case None
  then have "invoices (snd (generate_fresh p s)) = map id (invoices s) @ []"
    by (simp add: generate_fresh_def)
  then show ?thesis by (intro exI [where x = id] exI conjI) (assumption, simp)
next
  case (Some fxr)
  let ?s2 = "lock_rate s (er_id fxr)"
  have inv2: "invoices ?s2 = invoices s" by (simp add: lock_rate_def)
  show ?thesis
  proof (cases "pending_events ?s2 (client_id p) (invoice_month p) = []")
    case True
    with Some inv2 have "invoices (snd (generate_fresh p s)) = map id (invoices s) @ []"
      by (simp add: generate_fresh_def Let_def)
    then show ?thesis by (intro exI [where x = id] exI conjI) (assumption, simp)
  next
    case False
    with Some have "snd (generate_fresh p s)
        = snd (write_invoice p (er_id fxr) (er_rate fxr) (pending_events ?s2 (client_id p) (invoice_month p)) ?s2)"
      by (simp add: generate_fresh_def Let_def case_prod_unfold)
    with write_invoice_invoices [of p "er_id fxr" "er_rate fxr" _ ?s2] inv2
    show ?thesis by simp
  qed
qed

lemma draft_reverted_invoices:
  "\<exists>f. invoices (draft_reverted p s) = map f (invoices s)
     \<and> (\<forall>x. inv_id (f x) = inv_id x \<and> inv_status (f x) = inv_status x)"
proof (cases "\<exists>ex. existing_invoice s p = Some ex \<and> inv_status ex = Draft \<and> regenerate_draft p")
  case True
  then obtain ex where "existing_invoice s p = Some ex" "inv_status ex = Draft \<and> regenerate_draft p" by blast
  then have "invoices (draft_reverted p s) = map (\<lambda>i. if inv_id i = inv_id ex then i\<lparr>inv_deleted := True\<rparr> else i) (invoices s)"
    by (simp add: draft_reverted_def revert_draft_def)
  then show ?thesis
    by (intro exI [where x = "\<lambda>i. if inv_id i = inv_id ex then i\<lparr>inv_deleted := True\<rparr> else i"] conjI) (assumption, simp)
next
  case False
  then have "invoices (draft_reverted p s) = map id (invoices s)"
    by (auto simp: draft_reverted_def split: option.splits)
  then show ?thesis by (intro exI [where x = id] conjI) (assumption, simp)
qed

lemma generate_split:
  "generate p s =
     (case existing_invoice s p of
        Some existing \<Rightarrow>
          if inv_status existing \<noteq> Draft then (Inl INVOICE_ALREADY_ISSUED, s)
          else if \<not> regenerate_draft p then (Inr (Reused (inv_id existing)), s)
          else generate_fresh p (draft_reverted p s)
      | None \<Rightarrow> generate_fresh p (draft_reverted p s))"
  by (simp add: generate_def draft_reverted_def split: option.splits)

lemma generate_invoices:
  "\<exists>f ys. invoices (snd (generate p s)) = map f (invoices s) @ ys
     \<and> (\<forall>x. inv_id (f x) = inv_id x \<and> inv_status (f x) = inv_status x)"
proof (cases "snd (generate p s) = s")
  case True
  then have "invoices (snd (generate p s)) = map id (invoices s) @ []" by simp
  then show ?thesis by (intro exI [where x = id] exI conjI) (assumption, simp)
next
  case False
  then have eq: "generate p s = generate_fresh p (draft_reverted p s)"
    by (auto simp: generate_split split: option.splits if_splits)
  from draft_reverted_invoices [of p s] obtain f where
    f: "invoices (draft_reverted p s) = map f (invoices s)"
       "\<forall>x. inv_id (f x) = inv_id x \<and> inv_status (f x) = inv_status x" by blast
  from generate_fresh_invoices [of p "draft_reverted p s"] obtain g ys where
    g: "invoices (snd (generate_fresh p (draft_reverted p s))) = map g (invoices (draft_reverted p s)) @ ys"
       "\<forall>x. inv_id (g x) = inv_id x \<and> inv_status (g x) = inv_status x" by blast
  from f g eq have "invoices (snd (generate p s)) = map (g \<circ> f) (invoices s) @ ys" by simp
  moreover from f g have "\<forall>x. inv_id ((g \<circ> f) x) = inv_id x \<and> inv_status ((g \<circ> f) x) = inv_status x"
    by simp
  ultimately show ?thesis by blast
qed

lemma status_monotone_generate: "status_monotone s (snd (generate p s))"
proof -
  from generate_invoices [of p s] obtain f ys where
    "invoices (snd (generate p s)) = map f (invoices s) @ ys"
    "\<forall>x. inv_id (f x) = inv_id x \<and> inv_status (f x) = inv_status x" by blast
  then show ?thesis by (intro status_monotone_mapI [where f = f and ys = ys]) (simp_all add: rank_kept_def)
qed

text \<open>
  C7. With invoice ids a primary key: \<open>issue\<close> and \<open>mark_paid\<close> answer \<open>NOT_FOUND\<close> when
  no live invoice has the id; otherwise \<open>issue\<close> answers \<open>INVALID_STATUS\<close> unless the
  status is \<open>Draft\<close> and sets exactly that row to \<open>Issued\<close>, and \<open>mark_paid\<close> answers
  \<open>INVALID_STATUS\<close> unless the status is \<open>Issued\<close> and sets exactly that row to \<open>Paid\<close>.
  No callback of the five operations lowers the status rank of an invoice row.
\<close>

theorem C7_state_machine:
  assumes "distinct (map inv_id (invoices s))"
  shows "(\<not> (\<exists>r\<in>set (invoices s). inv_id r = i \<and> \<not> inv_deleted r)
            \<longrightarrow> issue i s = (Inl NOT_FOUND, s) \<and> mark_paid i s = (Inl NOT_FOUND, s))
    \<and> (\<forall>r\<in>set (invoices s). inv_id r = i \<and> \<not> inv_deleted r \<longrightarrow>
          issue i s =
            (if inv_status r = Draft
             then (Inr (i, Issued),
                   s\<lparr>invoices := map (\<lambda>x. if x = r then x\<lparr>inv_status := Issued\<rparr> else x) (invoices s)\<rparr>)
             else (Inl INVALID_STATUS, s))
        \<and> mark_paid i s =
            (if inv_status r = Issued
             then (Inr (i, Paid),
                   s\<lparr>invoices := map (\<lambda>x. if x = r then x\<lparr>inv_status := Paid\<rparr> else x) (invoices s)\<rparr>)
             else (Inl INVALID_STATUS, s)))
    \<and> status_monotone s (run_op op s)"
proof -
  have "status_monotone s (run_op op s)"
    by (cases op)
      (simp_all add: status_monotone_generate status_monotone_issue [OF assms]
         status_monotone_mark_paid [OF assms] status_monotone_duplicate status_monotone_mark_pending)
  with issue_cases [OF assms, of i] mark_paid_cases [OF assms, of i] show ?thesis by blast
qed

lemma demo_generate:
  "generate demo_payload demo_store = (Inr (Generated (Some demo_invoice) 2 1), demo_invoiced)"
  by code_simp

theorem C7_state_machine_witness:
  "distinct (map inv_id (invoices demo_invoiced))
   \<and> fst (issue 1 demo_invoiced) = Inr (1, Issued)
   \<and> mark_paid 1 demo_invoiced = (Inl INVALID_STATUS, demo_invoiced)
   \<and> issue 2 demo_invoiced = (Inl NOT_FOUND, demo_invoiced)
   \<and> status_monotone demo_invoiced (run_op (OpIssue 1) demo_invoiced)"
proof -
  have d: "distinct (map inv_id (invoices demo_invoiced))"
    by (simp add: demo_invoiced_def)
  have r: "demo_invoice \<in> set (invoices demo_invoiced)"
    "inv_id demo_invoice = 1 \<and> \<not> inv_deleted demo_invoice" "inv_status demo_invoice = Draft"
    by (simp_all add: demo_invoiced_def demo_invoice_def)
  have none: "\<not> (\<exists>r\<in>set (invoices demo_invoiced). inv_id r = 2 \<and> \<not> inv_deleted r)"
    by (simp add: demo_invoiced_def demo_invoice_def)
  note C7 = C7_state_machine [OF d]
  from C7 [of 1 "OpIssue 1"] r
  have "fst (issue 1 demo_invoiced) = Inr (1, Issued)"
    "mark_paid 1 demo_invoiced = (Inl INVALID_STATUS, demo_invoiced)"
    by auto
  moreover from C7 [of 1 "OpIssue 1"]
  have "status_monotone demo_invoiced (run_op (OpIssue 1) demo_invoiced)" by blast
  moreover from C7 [of 2 "OpIssue 1"] none
  have "issue 2 demo_invoiced = (Inl NOT_FOUND, demo_invoiced)" by blast
  ultimately show ?thesis using d by blast
qed

section \<open>Reverting events to pending\<close>

lemma filter_by_id_le1:
  "distinct (map inv_id xs) \<Longrightarrow> length (filter (\<lambda>i. k = Some (inv_id i) \<and> P i) xs) \<le> 1"
proof (induction xs)
  case Nil
  then show ?case by simp
next
  case (Cons a xs)
  show ?case
  proof (cases "k = Some (inv_id a) \<and> P a")
    case True
    with Cons.prems have "\<forall>i\<in>set xs. k \<noteq> Some (inv_id i)" by auto
    then have "filter (\<lambda>i. k = Some (inv_id i) \<and> P i) xs = []" by (simp add: filter_empty_conv)
    with True show ?thesis by simp
  next
    case False
    with Cons show ?thesis by auto
  qed
qed

lemma join_rows_length:
  assumes "distinct (map inv_id (invoices s))"
  shows "length (join_rows s e) = 1"
proof -
  let ?j = "filter (\<lambda>i. be_invoice_id e = Some (inv_id i) \<and> \<not> inv_deleted i) (invoices s)"
  from filter_by_id_le1 [OF assms, of "be_invoice_id e" "\<lambda>i. \<not> inv_deleted i"]
  have "length ?j \<le> 1" .
  then show ?thesis by (cases ?j) (simp_all add: join_rows_def)
qed

lemma join_rows_blocked:
  "(\<exists>r\<in>set (join_rows s e). snd r = Some Issued \<or> snd r = Some Paid)
   \<longleftrightarrow> (\<exists>i\<in>set (invoices s). be_invoice_id e = Some (inv_id i) \<and> \<not> inv_deleted i
          \<and> (inv_status i = Issued \<or> inv_status i = Paid))"
proof -
  let ?j = "filter (\<lambda>i. be_invoice_id e = Some (inv_id i) \<and> \<not> inv_deleted i) (invoices s)"
  have "(\<exists>r\<in>set (join_rows s e). snd r = Some Issued \<or> snd r = Some Paid)
        \<longleftrightarrow> (\<exists>i\<in>set ?j. inv_status i = Issued \<or> inv_status i = Paid)"
    by (cases ?j) (auto simp: join_rows_def)
  then show ?thesis by auto
qed

lemma mark_pending_rows_eq:
  "mark_pending_rows ids s =
     concat (map (join_rows s) (filter (\<lambda>e. be_id e \<in> set ids \<and> \<not> be_deleted e) (billing_events s)))"
  by (simp add: mark_pending_rows_def)

lemma concat_join_length:
  assumes "distinct (map inv_id (invoices s))"
  shows "length (concat (map (join_rows s) es)) = length es"
  by (induction es) (simp_all add: join_rows_length [OF assms])

lemma concat_join_blocked:
  "filter (\<lambda>r. snd r = Some Issued \<or> snd r = Some Paid) (concat (map (join_rows s) es)) \<noteq> []
   \<longleftrightarrow> (\<exists>e\<in>set es. \<exists>i\<in>set (invoices s). be_invoice_id e = Some (inv_id i) \<and> \<not> inv_deleted i
          \<and> (inv_status i = Issued \<or> inv_status i = Paid))"
proof -
  have "filter (\<lambda>r. snd r = Some Issued \<or> snd r = Some Paid) (concat (map (join_rows s) es)) \<noteq> []
     \<longleftrightarrow> (\<exists>e\<in>set es. \<exists>r\<in>set (join_rows s e). snd r = Some Issued \<or> snd r = Some Paid)"
    by (auto simp: filter_empty_conv)
  then show ?thesis by (simp only: join_rows_blocked)
qed

text \<open>
  C9. With invoice ids a primary key, \<open>mark_pending\<close> is this function of the live
  events with an id in \<open>ids\<close>: without any it answers \<open>EVENTS_NOT_FOUND\<close>; if the live
  invoice of one of them is \<open>Issued\<close> or \<open>Paid\<close> it answers \<open>EVENTS_LOCKED\<close>; in both cases
  the store is untouched. Otherwise it answers their number and sets each of them to
  \<open>PENDING\<close> with \<open>invoice_id\<close> and \<open>fx_rate_thbkrw\<close> cleared.
\<close>

theorem C9_mark_pending:
  assumes "distinct (map inv_id (invoices s))"
  shows "mark_pending ids s =
     (let targeted = filter (\<lambda>e. be_id e \<in> set ids \<and> \<not> be_deleted e) (billing_events s)
      in if targeted = [] then (Inl EVENTS_NOT_FOUND, s)
         else if \<exists>e\<in>set targeted. \<exists>i\<in>set (invoices s).
                   be_invoice_id e = Some (inv_id i) \<and> \<not> inv_deleted i
                   \<and> (inv_status i = Issued \<or> inv_status i = Paid)
              then (Inl EVENTS_LOCKED, s)
              else (Inr (length targeted),
                    s\<lparr>billing_events :=
                         map (\<lambda>e. if be_id e \<in> set ids \<and> \<not> be_deleted e
                                   then e\<lparr>be_status := PENDING, be_invoice_id := None,
                                          be_fx_rate_thbkrw := None\<rparr>
                                   else e) (billing_events s)\<rparr>))"
proof -
  let ?t = "filter (\<lambda>e. be_id e \<in> set ids \<and> \<not> be_deleted e) (billing_events s)"
  have len: "length (mark_pending_rows ids s) = length ?t"
    by (simp only: mark_pending_rows_eq concat_join_length [OF assms])
  then have empty: "mark_pending_rows ids s = [] \<longleftrightarrow> ?t = []"
    by (metis length_0_conv)
  have blocked: "filter (\<lambda>r. snd r = Some Issued \<or> snd r = Some Paid) (mark_pending_rows ids s) \<noteq> []
     \<longleftrightarrow> (\<exists>e\<in>set ?t. \<exists>i\<in>set (invoices s). be_invoice_id e = Some (inv_id i) \<and> \<not> inv_deleted i
          \<and> (inv_status i = Issued \<or> inv_status i = Paid))"
    by (simp only: mark_pending_rows_eq concat_join_blocked)
  show ?thesis
    unfolding mark_pending_def Let_def empty blocked len by simp
qed

theorem C9_mark_pending_witness:
  "distinct (map inv_id (invoices demo_invoiced))
   \<and> fst (mark_pending [1, 2] demo_invoiced) = Inr 2
   \<and> map be_status (billing_events (snd (mark_pending [1, 2] demo_invoiced))) = [PENDING, PENDING]
   \<and> distinct (map inv_id (invoices demo_issued))
   \<and> mark_pending [1, 2] demo_issued = (Inl EVENTS_LOCKED, demo_issued)"
proof -
  have d1: "distinct (map inv_id (invoices demo_invoiced))" by (simp add: demo_invoiced_def)
  have d2: "distinct (map inv_id (invoices demo_issued))" by (simp add: demo_issued_def)
  have a: "fst (mark_pending [1, 2] demo_invoiced) = Inr 2"
    unfolding C9_mark_pending [OF d1] by code_simp
  have b: "map be_status (billing_events (snd (mark_pending [1, 2] demo_invoiced))) = [PENDING, PENDING]"
    unfolding C9_mark_pending [OF d1] by code_simp
  have c: "mark_pending [1, 2] demo_issued = (Inl EVENTS_LOCKED, demo_issued)"
    unfolding C9_mark_pending [OF d2] by code_simp
  from d1 d2 a b c show ?thesis by blast
qed

section \<open>Errors and the store\<close>

text \<open>
  The callbacks of the four other routes, and \<open>INVOICE_ALREADY_ISSUED\<close> of the generate
  route, return their errors before any write.
\<close>

lemma withTransaction_error: "fst (withTransaction f s) = Inl e \<Longrightarrow> snd (withTransaction f s) = s"
  by (auto simp: withTransaction_def split: prod.splits sum.splits)

lemma issue_error: "fst (issue i s) = Inl e \<Longrightarrow> snd (issue i s) = s"
  by (auto simp: issue_def split: option.splits if_splits)

lemma mark_paid_error: "fst (mark_paid i s) = Inl e \<Longrightarrow> snd (mark_paid i s) = s"
  by (auto simp: mark_paid_def split: option.splits if_splits)

lemma duplicate_admin_error: "fst (duplicate_admin i s) = Inl e \<Longrightarrow> snd (duplicate_admin i s) = s"
  by (auto simp: duplicate_admin_def Let_def case_prod_unfold split: option.splits if_splits)

lemma mark_pending_error: "fst (mark_pending ids s) = Inl e \<Longrightarrow> snd (mark_pending ids s) = s"
  by (auto simp: mark_pending_def Let_def split: if_splits)

lemma generate_already_issued: "fst (generate p s) = Inl INVOICE_ALREADY_ISSUED \<Longrightarrow> snd (generate p s) = s"
  by (auto simp: generate_def generate_fresh_def Let_def case_prod_unfold split: option.splits if_splits)

text \<open>
  The callback of the generate route itself returns \<open>NO_PENDING_EVENTS\<close> after it has
  locked the rate, and \<open>FX_NOT_FOUND\<close> after it has reverted a draft that is to be
  regenerated: the store it leaves differs from the one it started on, and only the
  rollback of the wrapper restores it.
\<close>

lemma generate_no_pending_working_store:
  "generate demo_payload demo_no_events
     = (Inl NO_PENDING_EVENTS, demo_no_events\<lparr>exchange_rates := [demo_rate\<lparr>er_locked := True\<rparr>]\<rparr>)"
  by code_simp

lemma generate_fx_not_found_working_store:
  "generate demo_regenerate_early demo_invoiced
     = (Inl FX_NOT_FOUND, revert_draft demo_invoiced 1)
   \<and> map inv_deleted (invoices demo_invoiced) = [False]
   \<and> map inv_deleted (invoices (revert_draft demo_invoiced 1)) = [True]
   \<and> map be_status (billing_events demo_invoiced) = [INVOICED, INVOICED]
   \<and> map be_status (billing_events (revert_draft demo_invoiced 1)) = [PENDING, PENDING]"
  by code_simp

text \<open>
  C3. Under the transaction wrapper modelled from the spec, each of the five operations
  that answers a domain error leaves the store as it was; in particular a generation
  that answers \<open>NO_PENDING_EVENTS\<close> leaves the invoices and the lock flags of the rates
  as they were.
\<close>

theorem C3_all_or_nothing:
  "(fst (generateInvoice p s) = Inl e \<longrightarrow> snd (generateInvoice p s) = s)
   \<and> (fst (issueInvoice i s) = Inl e \<longrightarrow> snd (issueInvoice i s) = s)
   \<and> (fst (markInvoicePaid i s) = Inl e \<longrightarrow> snd (markInvoicePaid i s) = s)
   \<and> (fst (duplicateInvoiceForAdmin i s) = Inl e \<longrightarrow> snd (duplicateInvoiceForAdmin i s) = s)
   \<and> (fst (markEventsPending ids s) = Inl e \<longrightarrow> snd (markEventsPending ids s) = s)
   \<and> (fst (generateInvoice p s) = Inl NO_PENDING_EVENTS \<longrightarrow>
        invoices (snd (generateInvoice p s)) = invoices s
        \<and> map er_locked (exchange_rates (snd (generateInvoice p s))) = map er_locked (exchange_rates s))"
  by (auto simp: generateInvoice_def issueInvoice_def markInvoicePaid_def
      duplicateInvoiceForAdmin_def markEventsPending_def dest: withTransaction_error)
theorem C3_all_or_nothing_witness:
  "fst (generateInvoice demo_payload demo_no_events) = Inl NO_PENDING_EVENTS
   \<and> snd (generateInvoice demo_payload demo_no_events) = demo_no_events
   \<and> invoices (snd (generateInvoice demo_payload demo_no_events)) = invoices demo_no_events
   \<and> map er_locked (exchange_rates (snd (generateInvoice demo_payload demo_no_events)))
       = map er_locked (exchange_rates demo_no_events)"
proof -
  have e: "fst (generateInvoice demo_payload demo_no_events) = Inl NO_PENDING_EVENTS"
    by code_simp
  with C3_all_or_nothing [of demo_payload demo_no_events NO_PENDING_EVENTS]
  show ?thesis by simp
qed

section \<open>Generation: the rate and the existing invoice\<close>

lemma find_snoc_fresh:
  "\<forall>x\<in>set xs. \<not> P x \<Longrightarrow> P y \<Longrightarrow> find P (xs @ [y]) = Some y"
  by (induction xs) simp_all

lemma map_fresh_id:
  "map (\<lambda>i. if inv_id i = fresh_id (map inv_id xs) then f i else i) xs = xs"
proof -
  have "\<forall>x\<in>set xs. inv_id x \<noteq> fresh_id (map inv_id xs)"
    using fresh_id_gt [of _ "map inv_id xs"] by fastforce
  then show ?thesis by (simp add: map_idI)
qed

lemma write_invoice_char:
  fixes payload :: generate_payload and s :: store and fx :: jsnum and evs :: "billing_event list" and fid :: nat
  defines "iid \<equiv> fresh_id (map inv_id (invoices s))"
  defines "il \<equiv> item_loop iid (item_description (service_catalog s))
                  (fold (\<lambda>e. group_add (be_service_code e) (num_or0 (be_qty e)) (normalizedAmount fx e)) evs [])
                  (Fin 0, invoice_items s)"
  defines "sub \<equiv> trunc100 (JNum (fst il))"
  defines "vat \<equiv> trunc100 (JNum (js_mul sub (to_double (7 / 100))))"
  defines "new \<equiv> \<lparr>inv_id = iid, inv_client_id = client_id payload,
                   inv_invoice_month = invoice_month payload,
                   inv_invoice_no = (client_id payload, invoice_month payload,
                      fst (resolveInvoiceSequence s (client_id payload) (invoice_month payload))),
                   inv_status = Draft, inv_invoice_date = invoice_date payload,
                   inv_fx_rate_thbkrw = fx, inv_subtotal_krw = sub, inv_vat_krw = vat,
                   inv_total_krw = trunc100 (JNum (js_add sub vat)), inv_created_by = created_by payload,
                   inv_deleted = False\<rparr>"
  shows "fst (write_invoice payload fid fx evs s) = Generated (Some new) (length evs) fid"
    and "invoices (snd (write_invoice payload fid fx evs s)) = invoices s @ [new]"
    and "invoice_items (snd (write_invoice payload fid fx evs s)) =
           snd il @ [\<lparr>ii_id = fresh_id (map ii_id (snd il)), ii_invoice_id = iid,
                      ii_service_code = ''VAT_7'', ii_description = ''VAT 7%'',
                      ii_qty = Fin 1, ii_unit_price_krw = vat, ii_amount_krw = vat,
                      ii_deleted = False\<rparr>]"
proof -
  have fresh: "\<forall>x\<in>set (invoices s). inv_id x \<noteq> iid"
    unfolding iid_def using fresh_id_gt [of _ "map inv_id (invoices s)"] by fastforce
  show inv: "invoices (snd (write_invoice payload fid fx evs s)) = invoices s @ [new]"
    using map_fresh_id [where xs = "invoices s"]
    by (simp add: write_invoice_def Let_def case_prod_unfold resolveInvoiceSequence_frame
        event_loop_snd iid_def il_def sub_def vat_def new_def)
  have "fst (write_invoice payload fid fx evs s)
          = Generated (find (\<lambda>i. inv_id i = iid) (invoices (snd (write_invoice payload fid fx evs s))))
              (length evs) fid"
    by (simp add: write_invoice_def Let_def case_prod_unfold resolveInvoiceSequence_frame iid_def)
  also have "find (\<lambda>i. inv_id i = iid) (invoices (snd (write_invoice payload fid fx evs s))) = Some new"
    unfolding inv by (rule find_snoc_fresh) (use fresh in \<open>simp_all add: new_def\<close>)
  finally show "fst (write_invoice payload fid fx evs s) = Generated (Some new) (length evs) fid" .
  show "invoice_items (snd (write_invoice payload fid fx evs s)) =
           snd il @ [\<lparr>ii_id = fresh_id (map ii_id (snd il)), ii_invoice_id = iid,
                      ii_service_code = ''VAT_7'', ii_description = ''VAT 7%'',
                      ii_qty = Fin 1, ii_unit_price_krw = vat, ii_amount_krw = vat,
                      ii_deleted = False\<rparr>]"
    by (simp add: write_invoice_def Let_def case_prod_unfold resolveInvoiceSequence_frame
        event_loop_snd iid_def il_def sub_def vat_def)
qed

lemma write_invoice_row:
  fixes p :: generate_payload and s :: store and fx :: jsnum and evs :: "billing_event list"
  defines "il \<equiv> item_loop (fresh_id (map inv_id (invoices s))) (item_description (service_catalog s))
                  (fold (\<lambda>e. group_add (be_service_code e) (num_or0 (be_qty e)) (normalizedAmount fx e)) evs [])
                  (Fin 0, invoice_items s)"
  assumes w: "write_invoice p fid fx evs s = (d, s')"
  shows "\<exists>new. d = Generated (Some new) (length evs) fid
           \<and> invoices s' = invoices s @ [new]
           \<and> inv_id new = fresh_id (map inv_id (invoices s))
           \<and> inv_client_id new = client_id p \<and> inv_invoice_month new = invoice_month p
           \<and> inv_status new = Draft \<and> \<not> inv_deleted new \<and> inv_fx_rate_thbkrw new = fx
           \<and> inv_subtotal_krw new = trunc100 (JNum (fst il))
           \<and> inv_vat_krw new = trunc100 (JNum (js_mul (inv_subtotal_krw new) (to_double (7 / 100))))
           \<and> inv_total_krw new = trunc100 (JNum (js_add (inv_subtotal_krw new) (inv_vat_krw new)))
           \<and> invoice_items s' =
                snd il @ [\<lparr>ii_id = fresh_id (map ii_id (snd il)), ii_invoice_id = inv_id new,
                      ii_service_code = ''VAT_7'', ii_description = ''VAT 7%'',
                      ii_qty = Fin 1, ii_unit_price_krw = inv_vat_krw new, ii_amount_krw = inv_vat_krw new,
                      ii_deleted = False\<rparr>]"
proof -
  note ch = write_invoice_char [of p fid fx evs s, folded il_def]
  from w have d: "d = fst (write_invoice p fid fx evs s)" and s': "s' = snd (write_invoice p fid fx evs s)"
    by simp_all
  show ?thesis
    unfolding d s' ch by simp
qed

lemma lock_rate_frame:
  "invoices (lock_rate s i) = invoices s"
  "invoice_items (lock_rate s i) = invoice_items s"
  "billing_events (lock_rate s i) = billing_events s"
  "service_catalog (lock_rate s i) = service_catalog s"
  "invoice_sequences (lock_rate s i) = invoice_sequences s"
  by (simp_all add: lock_rate_def)

lemma pending_events_lock_rate: "pending_events (lock_rate s i) c m = pending_events s c m"
  by (simp add: pending_events_def lock_rate_frame)

lemma draft_reverted_rates: "exchange_rates (draft_reverted p s) = exchange_rates s"
  by (simp add: draft_reverted_def revert_draft_def split: option.splits)

lemma fx_row_draft_reverted: "fx_row (draft_reverted p s) d = fx_row s d"
  by (simp add: fx_row_def fx_candidates_def draft_reverted_rates)

lemma draft_reverted_keep: "\<not> regenerate_draft p \<Longrightarrow> draft_reverted p s = s"
  by (simp add: draft_reverted_def split: option.splits)

lemma generate_fresh_Generated:
  assumes "generate_fresh p s = (Inr (Generated row n fid), s')"
  shows "\<exists>fxr. fx_row s (invoice_date p) = Some fxr \<and> fid = er_id fxr
           \<and> pending_events s (client_id p) (invoice_month p) \<noteq> []
           \<and> write_invoice p (er_id fxr) (er_rate fxr)
                (pending_events s (client_id p) (invoice_month p)) (lock_rate s (er_id fxr))
              = (Generated row n fid, s')"
proof (cases "fx_row s (invoice_date p)")
  case None
  with assms show ?thesis by (simp add: generate_fresh_def)
next
  case (Some fxr)
  let ?evs = "pending_events s (client_id p) (invoice_month p)"
  let ?w = "write_invoice p (er_id fxr) (er_rate fxr) ?evs (lock_rate s (er_id fxr))"
  from assms Some have ne: "?evs \<noteq> []"
    by (auto simp: generate_fresh_def Let_def pending_events_lock_rate)
  with assms Some have w: "(Inr (fst ?w), snd ?w) = (Inr (Generated row n fid), s')"
    by (simp add: generate_fresh_def Let_def pending_events_lock_rate case_prod_unfold)
  then have "?w = (Generated row n fid, s')" by (simp add: prod_eq_iff)
  moreover have "fst ?w = Generated (Some undefined) (length ?evs) (er_id fxr) \<or> True" by simp
  moreover from w have "fid = er_id fxr"
    using write_invoice_char(1) [of p "er_id fxr" "er_rate fxr" ?evs "lock_rate s (er_id fxr)"]
    by simp
  ultimately show ?thesis using Some ne by simp
qed

lemma generate_fresh_not_Reused: "generate_fresh p s \<noteq> (Inr (Reused i), s')"
proof (cases "fx_row s (invoice_date p)")
  case None
  then show ?thesis by (simp add: generate_fresh_def)
next
  case (Some fxr)
  let ?evs = "pending_events s (client_id p) (invoice_month p)"
  show ?thesis
  proof (cases "?evs = []")
    case True
    with Some show ?thesis by (simp add: generate_fresh_def Let_def pending_events_lock_rate)
  next
    case False
    with Some have "fst (generate_fresh p s)
        = Inr (fst (write_invoice p (er_id fxr) (er_rate fxr) ?evs (lock_rate s (er_id fxr))))"
      by (simp add: generate_fresh_def Let_def pending_events_lock_rate case_prod_unfold)
    then show ?thesis
      by (auto simp: write_invoice_char(1))
  qed
qed

lemma generate_Generated:
  assumes "generate p s = (Inr (Generated row n fid), s')"
  shows "generate_fresh p (draft_reverted p s) = (Inr (Generated row n fid), s')"
  using assms by (auto simp: generate_split split: option.splits if_splits)

lemma first_desc_snoc:
  assumes "\<forall>x\<in>set ys. key x < key y" and "P y"
  shows "first_desc key (filter P (ys @ [y])) = Some y"
proof (cases "first_desc key (filter P (ys @ [y]))")
  case None
  with assms(2) show ?thesis by (simp add: first_desc_None)
next
  case (Some z)
  from first_desc_Some [OF Some] assms(2)
  have "z \<in> set (filter P ys) \<or> z = y" and "key y \<le> key z" by auto
  with assms(1) have "z = y" by (auto simp: not_less [symmetric])
  with Some show ?thesis by simp
qed

lemma first_desc_unique:
  assumes "distinct (map key xs)" and "y \<in> set xs" and "P y"
    and "\<forall>x\<in>set xs. P x \<longrightarrow> key x \<le> key y"
  shows "first_desc key (filter P xs) = Some y"
proof (cases "first_desc key (filter P xs)")
  case None
  with assms(2,3) show ?thesis by (auto simp: first_desc_None filter_empty_conv)
next
  case (Some z)
  from first_desc_Some [OF Some] assms(2,3)
  have z: "z \<in> set xs" "P z" and "key y \<le> key z" by auto
  with assms(4) have "key z = key y" by auto
  with assms(1,2) z have "z = y" by (auto simp: distinct_map dest: inj_onD)
  with Some show ?thesis by simp
qed

text \<open>
  C6. The rate of a date is one of the non-deleted active THB/KRW rates dated on or
  before it, and every such rate has an earlier date, or the same date and an id not
  above; there is none exactly when no such rate exists. A generated invoice carries the
  rate chosen for its invoice date, and the reply its id. Without such a rate, a
  generation that reaches the lookup answers \<open>FX_NOT_FOUND\<close>, and in any case no invoice
  row is added.
\<close>

theorem C6_rate_selection:
  "(\<forall>r. fx_row s d = Some r \<longrightarrow>
        r \<in> set (fx_candidates s d)
        \<and> (\<forall>r'\<in>set (fx_candidates s d).
              er_rate_date r' < er_rate_date r
              \<or> (er_rate_date r' = er_rate_date r \<and> er_id r' \<le> er_id r)))
   \<and> (fx_row s d = None \<longleftrightarrow> fx_candidates s d = [])
   \<and> (\<forall>row n fid s'. generate p s = (Inr (Generated row n fid), s') \<longrightarrow>
        (\<exists>r i. fx_row s (invoice_date p) = Some r \<and> fid = er_id r
               \<and> row = Some i \<and> inv_fx_rate_thbkrw i = er_rate r))
   \<and> (fx_candidates s (invoice_date p) = [] \<longrightarrow>
        ((\<forall>ex. existing_invoice s p = Some ex \<longrightarrow> inv_status ex = Draft \<and> regenerate_draft p)
           \<longrightarrow> generate p s = (Inl FX_NOT_FOUND, draft_reverted p s))
        \<and> map inv_id (invoices (snd (generate p s))) = map inv_id (invoices s))"
proof (intro conjI allI impI)
  fix r assume "fx_row s d = Some r"
  from first_desc_Some [OF this [unfolded fx_row_def]]
  have "r \<in> set (fx_candidates s d)"
    and le: "\<forall>r'\<in>set (fx_candidates s d). (er_rate_date r', er_id r') \<le> (er_rate_date r, er_id r)"
    by simp_all
  then show "r \<in> set (fx_candidates s d)" by simp
  from le show "\<forall>r'\<in>set (fx_candidates s d).
              er_rate_date r' < er_rate_date r
              \<or> (er_rate_date r' = er_rate_date r \<and> er_id r' \<le> er_id r)"
    by (auto simp: less_eq_prod_def less_le)
next
  show "fx_row s d = None \<longleftrightarrow> fx_candidates s d = []"
    by (simp add: fx_row_def first_desc_None)
next
  fix row n fid s' assume "generate p s = (Inr (Generated row n fid), s')"
  from generate_fresh_Generated [OF generate_Generated [OF this]]
  obtain fxr where fxr: "fx_row s (invoice_date p) = Some fxr" "fid = er_id fxr"
    and w: "write_invoice p (er_id fxr) (er_rate fxr)
                (pending_events (draft_reverted p s) (client_id p) (invoice_month p))
                (lock_rate (draft_reverted p s) (er_id fxr))
              = (Generated row n fid, s')"
    by (auto simp: fx_row_draft_reverted)
  from write_invoice_row [OF w]
  obtain i where "row = Some i" "inv_fx_rate_thbkrw i = er_rate fxr" by auto
  with fxr show "\<exists>r i. fx_row s (invoice_date p) = Some r \<and> fid = er_id r
               \<and> row = Some i \<and> inv_fx_rate_thbkrw i = er_rate r" by blast
next
  assume e: "fx_candidates s (invoice_date p) = []"
    and r: "\<forall>ex. existing_invoice s p = Some ex \<longrightarrow> inv_status ex = Draft \<and> regenerate_draft p"
  from e have "fx_row s (invoice_date p) = None" by (simp add: fx_row_def)
  then have "generate_fresh p (draft_reverted p s) = (Inl FX_NOT_FOUND, draft_reverted p s)"
    by (simp add: generate_fresh_def fx_row_draft_reverted)
  with r show "generate p s = (Inl FX_NOT_FOUND, draft_reverted p s)"
    by (auto simp: generate_split split: option.splits)
next
  assume e: "fx_candidates s (invoice_date p) = []"
  then have "fx_row s (invoice_date p) = None" by (simp add: fx_row_def)
  then have fresh: "generate_fresh p (draft_reverted p s) = (Inl FX_NOT_FOUND, draft_reverted p s)"
    by (simp add: generate_fresh_def fx_row_draft_reverted)
  have "snd (generate p s) = s \<or> snd (generate p s) = draft_reverted p s"
    by (auto simp: generate_split fresh split: option.splits)
  moreover from draft_reverted_invoices [of p s]
  have "map inv_id (invoices (draft_reverted p s)) = map inv_id (invoices s)" by auto
  ultimately show "map inv_id (invoices (snd (generate p s))) = map inv_id (invoices s)" by auto
qed

theorem C6_rate_selection_witness:
  "fx_row (demo_store\<lparr>exchange_rates := demo_rates\<rparr>) (2026, 1, 31) = Some (demo_rates ! 2)
   \<and> demo_rates ! 2 \<in> set (fx_candidates (demo_store\<lparr>exchange_rates := demo_rates\<rparr>) (2026, 1, 31))
   \<and> generate demo_payload demo_store = (Inr (Generated (Some demo_invoice) 2 1), demo_invoiced)
   \<and> fx_row demo_store (invoice_date demo_payload) = Some demo_rate
   \<and> inv_fx_rate_thbkrw demo_invoice = er_rate demo_rate
   \<and> fx_candidates demo_store (invoice_date demo_early) = []
   \<and> generate demo_early demo_store = (Inl FX_NOT_FOUND, demo_store)
   \<and> map inv_id (invoices (snd (generate demo_early demo_store))) = map inv_id (invoices demo_store)"
proof -
  let ?s = "demo_store\<lparr>exchange_rates := demo_rates\<rparr>"
  have a: "fx_row ?s (2026, 1, 31) = Some (demo_rates ! 2)" by code_simp
  with C6_rate_selection [of ?s "(2026, 1, 31)" demo_payload]
  have b: "demo_rates ! 2 \<in> set (fx_candidates ?s (2026, 1, 31))" by blast
  have c0: "fx_row demo_store (invoice_date demo_payload) = Some demo_rate" by code_simp
  from C6_rate_selection [of demo_store "(2026, 1, 31)" demo_payload] demo_generate
  obtain r i where "fx_row demo_store (invoice_date demo_payload) = Some r"
    "Some demo_invoice = Some i" "inv_fx_rate_thbkrw i = er_rate r"
    by blast
  with c0 have c: "fx_row demo_store (invoice_date demo_payload) = Some demo_rate
           \<and> inv_fx_rate_thbkrw demo_invoice = er_rate demo_rate"
    by simp
  have e: "fx_candidates demo_store (invoice_date demo_early) = []" by code_simp
  have r: "\<forall>ex. existing_invoice demo_store demo_early = Some ex
             \<longrightarrow> inv_status ex = Draft \<and> regenerate_draft demo_early"
    by (simp add: existing_invoice_def demo_store_def)
  have k: "draft_reverted demo_early demo_store = demo_store"
    by (simp add: draft_reverted_keep demo_early_def demo_payload_def)
  from C6_rate_selection [of demo_store "(2026, 1, 31)" demo_early] e r k
  have f: "generate demo_early demo_store = (Inl FX_NOT_FOUND, demo_store)
           \<and> map inv_id (invoices (snd (generate demo_early demo_store))) = map inv_id (invoices demo_store)"
    by simp
  from a b c e f demo_generate show ?thesis by blast
qed

text \<open>
  C4 (amended). With invoice ids a primary key and \<open>regenerate_draft\<close> false: if the
  live invoice of the client and month with the greatest id is a draft, \<open>generate\<close>
  answers \<open>reused\<close> with its id on an untouched store; a \<open>reused\<close> answer never changes
  the store; and after a generation that made an invoice, the same call answers
  \<open>reused\<close> with the id of that invoice, again on an untouched store.
\<close>

theorem C4_idempotent_reuse:
  assumes "distinct (map inv_id (invoices s))" and "\<not> regenerate_draft p"
  shows "(\<forall>ex\<in>set (invoices s).
            inv_client_id ex = client_id p \<and> inv_invoice_month ex = invoice_month p
            \<and> \<not> inv_deleted ex \<and> inv_status ex = Draft
            \<and> (\<forall>i\<in>set (invoices s).
                  inv_client_id i = client_id p \<and> inv_invoice_month i = invoice_month p
                  \<and> \<not> inv_deleted i \<longrightarrow> inv_id i \<le> inv_id ex)
          \<longrightarrow> generate p s = (Inr (Reused (inv_id ex)), s))
    \<and> (\<forall>i s'. generate p s = (Inr (Reused i), s') \<longrightarrow> s' = s)
    \<and> (\<forall>row n fid s'. generate p s = (Inr (Generated row n fid), s') \<longrightarrow>
          (\<exists>i. row = Some i \<and> generate p s' = (Inr (Reused (inv_id i)), s')))"
proof (intro conjI ballI allI impI)
  fix ex assume ex: "ex \<in> set (invoices s)"
    and h: "inv_client_id ex = client_id p \<and> inv_invoice_month ex = invoice_month p
            \<and> \<not> inv_deleted ex \<and> inv_status ex = Draft
            \<and> (\<forall>i\<in>set (invoices s).
                  inv_client_id i = client_id p \<and> inv_invoice_month i = invoice_month p
                  \<and> \<not> inv_deleted i \<longrightarrow> inv_id i \<le> inv_id ex)"
  from h have "existing_invoice s p = Some ex"
    unfolding existing_invoice_def
    by (intro first_desc_unique [OF assms(1) ex]) auto
  with h assms(2) show "generate p s = (Inr (Reused (inv_id ex)), s)"
    by (simp add: generate_def)
next
  fix i s' assume "generate p s = (Inr (Reused i), s')"
  then show "s' = s"
    by (auto simp: generate_split generate_fresh_not_Reused split: option.splits if_splits)
next
  fix row n fid s' assume g: "generate p s = (Inr (Generated row n fid), s')"
  from generate_fresh_Generated [OF generate_Generated [OF g]]
  obtain fxr :: exchange_rate where
    w: "write_invoice p (er_id fxr) (er_rate fxr)
                (pending_events s (client_id p) (invoice_month p)) (lock_rate s (er_id fxr))
              = (Generated row n fid, s')"
    unfolding draft_reverted_keep [OF assms(2)] by blast
  from write_invoice_row [OF w] obtain new where new: "row = Some new"
    "inv_id new = fresh_id (map inv_id (invoices s))"
    "inv_client_id new = client_id p" "inv_invoice_month new = invoice_month p"
    "\<not> inv_deleted new" "inv_status new = Draft"
    and inv': "invoices s' = invoices s @ [new]"
    by (auto simp: lock_rate_frame)
  have "\<forall>x\<in>set (invoices s). inv_id x < inv_id new"
    unfolding new(2) using fresh_id_gt [of _ "map inv_id (invoices s)"] by auto
  then have "existing_invoice s' p = Some new"
    unfolding existing_invoice_def inv'
    by (rule first_desc_snoc) (simp add: new)
  with new assms(2) have "generate p s' = (Inr (Reused (inv_id new)), s')"
    by (simp add: generate_def)
  with new(1) show "\<exists>i. row = Some i \<and> generate p s' = (Inr (Reused (inv_id i)), s')" by blast
qed

theorem C4_idempotent_reuse_witness:
  "distinct (map inv_id (invoices demo_store)) \<and> \<not> regenerate_draft demo_payload
   \<and> generate demo_payload demo_store = (Inr (Generated (Some demo_invoice) 2 1), demo_invoiced)
   \<and> generate demo_payload demo_invoiced = (Inr (Reused (inv_id demo_invoice)), demo_invoiced)
   \<and> inv_id demo_invoice = 1"
proof -
  have d: "distinct (map inv_id (invoices demo_store))" by (simp add: demo_store_def)
  have n: "\<not> regenerate_draft demo_payload" by (simp add: demo_payload_def)
  from C4_idempotent_reuse [OF d n] demo_generate
  have "generate demo_payload demo_invoiced = (Inr (Reused (inv_id demo_invoice)), demo_invoiced)"
    by blast
  with d n demo_generate show ?thesis by (simp add: demo_invoice_def)
qed

text \<open>
  The statement for any live draft of the client and month fails once the month
  has a later invoice that is not a draft. After generate, issue 1, duplicate 1,
  duplicate 1 and issue 3, invoice 2 is a live draft of the month and invoice 3 is
  issued: the lookup \<open>ORDER BY id DESC LIMIT 1\<close> finds invoice 3 and generation answers
  \<open>INVOICE_ALREADY_ISSUED\<close>.
\<close>

lemma demo_duplicated_invoices:
  "invoices demo_duplicated =
     [demo_invoice\<lparr>inv_status := Issued\<rparr>,
      demo_invoice\<lparr>inv_id := 2, inv_invoice_no := (1, (2026, 1), 2)\<rparr>,
      demo_invoice\<lparr>inv_id := 3, inv_invoice_no := (1, (2026, 1), 3), inv_status := Issued\<rparr>]"
  by code_simp

theorem C4_counterexample:
  "inv_id (invoices demo_duplicated ! 1) = 2
   \<and> inv_client_id (invoices demo_duplicated ! 1) = client_id demo_payload
   \<and> inv_invoice_month (invoices demo_duplicated ! 1) = invoice_month demo_payload
   \<and> inv_status (invoices demo_duplicated ! 1) = Draft
   \<and> \<not> inv_deleted (invoices demo_duplicated ! 1)
   \<and> \<not> regenerate_draft demo_payload
   \<and> generate demo_payload demo_duplicated = (Inl INVOICE_ALREADY_ISSUED, demo_duplicated)"
  by (simp add: generate_def existing_invoice_def demo_duplicated_invoices demo_invoice_def
      demo_payload_def)

section \<open>Generation: events\<close>

lemma stamp_event_stamped:
  "stamp_event a fx iid k tbl = map (\<lambda>r. if be_id r = k then stamped a fx iid r else r) tbl"
  by (simp add: stamp_event_def)

lemma stamped_simps:
  "be_id (stamped a fx iid r) = be_id r"
  "stamped a fx iid (stamped b fx' iid' r) = stamped a fx iid r"
  by (simp_all add: stamped_def)

lemma fold_stamp:
  "fold (\<lambda>e t. stamp_event (f e) fx iid (be_id e) t) evs tbl =
     map (\<lambda>r. case find (\<lambda>e. be_id e = be_id r) (rev evs) of
                 None \<Rightarrow> r
               | Some e \<Rightarrow> stamped (f e) fx iid r) tbl"
proof (induction evs rule: rev_induct)
  case Nil
  then show ?case by simp
next
  case (snoc e es)
  let ?F = "\<lambda>e t. stamp_event (f e) fx iid (be_id e) t"
  let ?G = "\<lambda>evs r. case find (\<lambda>e. be_id e = be_id r) (rev evs) of
                 None \<Rightarrow> r
               | Some e \<Rightarrow> stamped (f e) fx iid r"
  have "fold ?F (es @ [e]) tbl = stamp_event (f e) fx iid (be_id e) (fold ?F es tbl)" by simp
  also have "\<dots> = stamp_event (f e) fx iid (be_id e) (map (?G es) tbl)" by (simp only: snoc.IH)
  also have "\<dots> = map (\<lambda>r. if be_id (?G es r) = be_id e then stamped (f e) fx iid (?G es r) else ?G es r) tbl"
    by (simp add: stamp_event_stamped comp_def)
  also have "\<dots> = map (?G (es @ [e])) tbl"
    by (rule map_cong [OF refl]) (auto simp: stamped_simps split: option.splits)
  finally show ?case .
qed

lemma find_SomeD: "find P xs = Some y \<Longrightarrow> y \<in> set xs \<and> P y"
  by (induction xs) (auto split: if_splits)

lemma find_in_distinct:
  assumes "distinct (map key tbl)" and "set evs \<subseteq> set tbl" and "e \<in> set evs"
  shows "find (\<lambda>x. key x = key e) (rev evs) = Some e"
proof (cases "find (\<lambda>x. key x = key e) (rev evs)")
  case None
  with assms(3) show ?thesis by (auto simp: find_None_iff)
next
  case (Some y)
  from find_SomeD [OF this] have "y \<in> set evs" "key y = key e"
    by simp_all
  with assms have "y = e" by (auto simp: distinct_map dest!: inj_onD)
  with Some show ?thesis by simp
qed

lemma fold_stamp_member:
  assumes "distinct (map be_id tbl)" and "set evs \<subseteq> set tbl" and "e \<in> set evs"
  shows "stamped (f e) fx iid e \<in> set (fold (\<lambda>e t. stamp_event (f e) fx iid (be_id e) t) evs tbl)"
proof -
  from assms have "e \<in> set tbl" by auto
  moreover note find_in_distinct [OF assms]
  ultimately show ?thesis
    unfolding fold_stamp by (auto simp: image_iff intro!: bexI [of _ e])
qed

lemma fold_stamp_ids:
  "map be_id (fold (\<lambda>e t. stamp_event (f e) fx iid (be_id e) t) evs tbl) = map be_id tbl"
  unfolding fold_stamp by (simp add: stamped_simps split: option.splits)

lemma draft_reverted_frame:
  "map inv_id (invoices (draft_reverted p s)) = map inv_id (invoices s)"
  "map ii_invoice_id (invoice_items (draft_reverted p s)) = map ii_invoice_id (invoice_items s)"
  "map be_id (billing_events (draft_reverted p s)) = map be_id (billing_events s)"
  "map be_service_code (billing_events (draft_reverted p s)) = map be_service_code (billing_events s)"
  "service_catalog (draft_reverted p s) = service_catalog s"
  by (simp_all add: draft_reverted_def revert_draft_def split: option.splits)

lemma set_pending_events: "set (pending_events s c m) \<subseteq> set (billing_events s)"
  by (auto simp: pending_events_def split: prod.splits)

lemma generate_Generated_write:
  assumes "generate p s = (Inr (Generated row n fid), s')"
  shows "\<exists>fxr::exchange_rate. fx_row s (invoice_date p) = Some fxr \<and> fid = er_id fxr
           \<and> write_invoice p (er_id fxr) (er_rate fxr)
                (pending_events (draft_reverted p s) (client_id p) (invoice_month p))
                (lock_rate (draft_reverted p s) (er_id fxr))
              = (Generated row n fid, s')"
  using generate_fresh_Generated [OF generate_Generated [OF assms]]
  by (auto simp: fx_row_draft_reverted)

lemma to_double_not_NaN: "to_double x \<noteq> NaN"
  by (simp add: to_double_def Let_def)

lemma trunc100_num_not_NaN: "trunc100 (JNum n) \<noteq> NaN"
proof (cases n)
  case (Fin z)
  show ?thesis
    unfolding Fin trunc100_JNum_Fin
    by (cases "to_double (z / 100)")
       (simp_all add: js_div_def js_floor_def js_mul_def js_sign_def inf_of_sign_def to_double_not_NaN)
qed (simp_all add: trunc100_nonfinite)

lemma trunc100_not_NaN: "v \<noteq> JPlainObject \<Longrightarrow> trunc100 v \<noteq> NaN"
  by (cases v) (simp_all add: trunc100_nonfinite trunc100_num_not_NaN)

lemma trunc100_zero: "trunc100 (JNum (Fin 0)) = Fin 0"
  using trunc100_hundreds [OF hundreds_0] by simp

lemma trunc100_falsy: "\<not> truthy v \<Longrightarrow> trunc100 v = Fin 0"
  by (cases v rule: truthy.cases) (simp_all add: trunc100_nonfinite trunc100_zero)

lemma js_mul_zero: "js_mul (Fin 0) b = Fin 0 \<or> js_mul (Fin 0) b = NaN"
  by (cases b) (simp_all add: js_mul_def js_sign_def inf_of_sign_def to_double_Fin)

lemma js_mul_NaN: "js_mul NaN b = NaN"
  by (simp add: js_mul_def)

lemma trunc100_mul_zero: "trunc100 (JNum (js_mul (Fin 0) b)) = Fin 0"
  using js_mul_zero [of b] by (auto simp: trunc100_zero trunc100_nonfinite)

lemma trunc100_mul_mul_zero: "trunc100 (JNum (js_mul (js_mul (Fin 0) b) c)) = Fin 0"
  using js_mul_zero [of b] by (auto simp: trunc100_mul_zero js_mul_NaN trunc100_nonfinite)

lemma num_or0_None: "num_or0 None = Fin 0"
  by (simp add: num_or0_def js_or_def)

lemma normalizedAmount_absent:
  "be_amount_thb e = None \<Longrightarrow> be_unit_price_thb e = None \<Longrightarrow> be_amount_krw e = None
   \<Longrightarrow> be_unit_price_krw e = None \<Longrightarrow> normalizedAmount fx e = Fin 0"
  by (simp add: normalizedAmount_def num_or0_None trunc100_mul_zero trunc100_mul_mul_zero)

lemma normalizedAmount_not_NaN: "normalizedAmount fx e \<noteq> NaN"
  by (simp add: normalizedAmount_def Let_def trunc100_num_not_NaN)

lemma normalizedAmount_hundreds:
  "normalizedAmount fx e = Fin x \<Longrightarrow> \<bar>x\<bar> < 2 ^ 54 \<Longrightarrow> hundreds x"
  by (auto simp: normalizedAmount_def Let_def split: if_splits intro: trunc100_finite_hundreds)

lemma trunc100_rounded:
  assumes "0 \<le> x" and "x \<le> 2 ^ 53"
  shows "trunc100 (JNum (to_double x)) = Fin (truncateToHundred (round_double x))"
proof -
  have z: "round_double 0 = 0" by simp
  have p: "round_double (2 ^ 53) = 2 ^ 53" using round_double_pow2 [of 53] by simp
  from round_double_cross_ge [OF z assms(1)] have lo: "0 \<le> round_double x" .
  from round_double_cross_le [OF p assms(2)] have hi: "round_double x \<le> 2 ^ 53" .
  from lo hi have "\<bar>round_double x\<bar> < 2 powi 1024" by simp
  then have "to_double x = Fin (round_double x)" by (rule to_double_Fin)
  moreover have "trunc100 (JNum (Fin (round_double x))) = Fin (truncateToHundred (round_double x))"
    using lo hi by (intro trunc100_exact round_double_idem) simp_all
  ultimately show ?thesis by simp
qed

lemma normalizedAmount_thb_exact:
  assumes "be_pricing_policy e = THB_BASED"
    and "(case be_amount_thb e of
            Some a \<Rightarrow> a
          | None \<Rightarrow> js_mul (num_or0 (be_unit_price_thb e)) (num_or0 (be_qty e))) = Fin a"
    and "0 \<le> a * f" and "a * f \<le> 2 ^ 53"
  shows "normalizedAmount (Fin f) e = Fin (truncateToHundred (round_double (a * f)))"
  using trunc100_rounded [OF assms(3,4)] assms(1,2)
  by (simp add: normalizedAmount_def js_mul_def)

lemma normalizedAmount_krw_exact:
  assumes "be_pricing_policy e \<noteq> THB_BASED"
    and "(case be_amount_krw e of
            Some a \<Rightarrow> a
          | None \<Rightarrow> js_mul (num_or0 (be_unit_price_krw e)) (num_or0 (be_qty e))) = Fin a"
    and "round_double a = a" and "0 \<le> a" and "a \<le> 2 ^ 53"
  shows "normalizedAmount fx e = Fin (truncateToHundred a)"
proof -
  have "trunc100 (JNum (Fin a)) = Fin (truncateToHundred a)"
    using assms(3-5) by (intro trunc100_exact) simp_all
  with assms(1,2) show ?thesis by (simp add: normalizedAmount_def)
qed

lemma demo_shipping_amount:
  "trunc100 (JNum (js_mul (Fin 120) (to_double (391234 / 10000)))) = Fin 4600"
  by code_simp

lemma demo_round_generate:
  "map be_amount_krw (billing_events (snd (generate demo_payload demo_round_store))) = [Some (Fin 64000)]"
  by code_simp

lemma demo_tenth_amount:
  "to_double (7 / 10) = Fin (3152519739159347 / 4503599627370496)"
  "normalizedAmount (to_double (7 / 10)) (demo_shipping\<lparr>be_amount_thb := Some (Fin 1000)\<rparr>) = Fin 700"
  "truncateToHundred (1000 * (3152519739159347 / 4503599627370496)) = 600"
  "truncateToHundred (2000 * (3205 / 100)) = 64100"
  by code_simp+

text \<open>
  C1 (amended). With event ids a primary key: after a generation that made an invoice,
  every event it consumed (the pending events of the client and month, read after a
  draft has been reverted) is in the table with the \<open>SET\<close> clause applied: its
  \<open>amount_krw\<close> is the normalized amount, its rate the rate of the invoice, its status
  \<open>INVOICED\<close>, its invoice the new one. The normalized amount is \<open>trunc100\<close> of the
  binary64 product of the THB amount and the rate for \<open>THB_BASED\<close>, and \<open>trunc100\<close> of the
  KRW amount otherwise, the amount being the explicit column if it is not \<open>NULL\<close> and the
  binary64 product of unit price and quantity if it is. Where amount and rate are finite
  and their exact product lies between 0 and \<open>2^53\<close>, the normalized amount is
  \<open>truncateToHundred\<close> of that product rounded to the nearest binary64 number; a KRW
  amount between 0 and \<open>2^53\<close> is truncated exactly. 120 THB at 39.1234 give 4600.
\<close>

theorem C1_normalized_amount:
  assumes "generate p s = (Inr (Generated row n fid), s')"
    and "distinct (map be_id (billing_events s))"
    and "e \<in> set (pending_events (draft_reverted p s) (client_id p) (invoice_month p))"
  shows "\<exists>fxr i. fx_row s (invoice_date p) = Some fxr \<and> row = Some i
      \<and> stamped (normalizedAmount (er_rate fxr) e) (er_rate fxr) (inv_id i) e \<in> set (billing_events s')
      \<and> map be_id (billing_events s') = map be_id (billing_events s)
      \<and> normalizedAmount (er_rate fxr) e =
          (if be_pricing_policy e = THB_BASED
           then trunc100 (JNum (js_mul (case be_amount_thb e of
                                          Some a \<Rightarrow> a
                                        | None \<Rightarrow> js_mul (num_or0 (be_unit_price_thb e)) (num_or0 (be_qty e)))
                                  (er_rate fxr)))
           else trunc100 (JNum (case be_amount_krw e of
                                  Some a \<Rightarrow> a
                                | None \<Rightarrow> js_mul (num_or0 (be_unit_price_krw e)) (num_or0 (be_qty e)))))
      \<and> (\<forall>a f. be_pricing_policy e = THB_BASED
              \<and> (case be_amount_thb e of
                    Some a \<Rightarrow> a
                  | None \<Rightarrow> js_mul (num_or0 (be_unit_price_thb e)) (num_or0 (be_qty e))) = Fin a
              \<and> er_rate fxr = Fin f \<and> 0 \<le> a * f \<and> a * f \<le> 2 ^ 53
            \<longrightarrow> normalizedAmount (er_rate fxr) e = Fin (truncateToHundred (round_double (a * f))))
      \<and> (\<forall>a. be_pricing_policy e \<noteq> THB_BASED
              \<and> (case be_amount_krw e of
                    Some a \<Rightarrow> a
                  | None \<Rightarrow> js_mul (num_or0 (be_unit_price_krw e)) (num_or0 (be_qty e))) = Fin a
              \<and> round_double a = a \<and> 0 \<le> a \<and> a \<le> 2 ^ 53
            \<longrightarrow> normalizedAmount (er_rate fxr) e = Fin (truncateToHundred a))
      \<and> trunc100 (JNum (js_mul (Fin 120) (to_double (391234 / 10000)))) = Fin 4600"
proof -
  let ?s1 = "draft_reverted p s"
  let ?evs = "pending_events ?s1 (client_id p) (invoice_month p)"
  from generate_Generated_write [OF assms(1)] obtain fxr :: exchange_rate where
    fxr: "fx_row s (invoice_date p) = Some fxr"
    and w: "write_invoice p (er_id fxr) (er_rate fxr) ?evs (lock_rate ?s1 (er_id fxr))
              = (Generated row n fid, s')"
    by blast
  let ?s2 = "lock_rate ?s1 (er_id fxr)"
  let ?iid = "fresh_id (map inv_id (invoices ?s2))"
  from write_invoice_row [OF w] obtain i where i: "row = Some i" "inv_id i = ?iid" by auto
  from w have ev: "billing_events s' =
      fold (\<lambda>e t. stamp_event (normalizedAmount (er_rate fxr) e) (er_rate fxr) ?iid (be_id e) t)
        ?evs (billing_events ?s1)"
    using write_invoice_events [of p "er_id fxr" "er_rate fxr" ?evs ?s2]
    by (simp add: lock_rate_frame)
  have d: "distinct (map be_id (billing_events ?s1))"
    using assms(2) by (simp add: draft_reverted_frame)
  have mem: "stamped (normalizedAmount (er_rate fxr) e) (er_rate fxr) (inv_id i) e \<in> set (billing_events s')"
    unfolding ev i(2) by (rule fold_stamp_member [OF d set_pending_events assms(3)])
  have ids: "map be_id (billing_events s') = map be_id (billing_events s)"
    unfolding ev by (simp add: fold_stamp_ids draft_reverted_frame)
  have norm: "normalizedAmount (er_rate fxr) e =
          (if be_pricing_policy e = THB_BASED
           then trunc100 (JNum (js_mul (case be_amount_thb e of
                                          Some a \<Rightarrow> a
                                        | None \<Rightarrow> js_mul (num_or0 (be_unit_price_thb e)) (num_or0 (be_qty e)))
                                  (er_rate fxr)))
           else trunc100 (JNum (case be_amount_krw e of
                                  Some a \<Rightarrow> a
                                | None \<Rightarrow> js_mul (num_or0 (be_unit_price_krw e)) (num_or0 (be_qty e)))))"
    by (simp add: normalizedAmount_def)
  have thb: "\<forall>a f. be_pricing_policy e = THB_BASED
              \<and> (case be_amount_thb e of
                    Some a \<Rightarrow> a
                  | None \<Rightarrow> js_mul (num_or0 (be_unit_price_thb e)) (num_or0 (be_qty e))) = Fin a
              \<and> er_rate fxr = Fin f \<and> 0 \<le> a * f \<and> a * f \<le> 2 ^ 53
            \<longrightarrow> normalizedAmount (er_rate fxr) e = Fin (truncateToHundred (round_double (a * f)))"
    using normalizedAmount_thb_exact [of e] by metis
  have krw: "\<forall>a. be_pricing_policy e \<noteq> THB_BASED
              \<and> (case be_amount_krw e of
                    Some a \<Rightarrow> a
                  | None \<Rightarrow> js_mul (num_or0 (be_unit_price_krw e)) (num_or0 (be_qty e))) = Fin a
              \<and> round_double a = a \<and> 0 \<le> a \<and> a \<le> 2 ^ 53
            \<longrightarrow> normalizedAmount (er_rate fxr) e = Fin (truncateToHundred a)"
    using normalizedAmount_krw_exact [of e] by blast
  from fxr i(1) mem ids norm thb krw demo_shipping_amount show ?thesis by blast
qed

lemma demo_fx_value: "demo_fx = Fin (5506129051920839 / 140737488355328)"
  by code_simp

theorem C1_normalized_amount_witness:
  "generate demo_payload demo_store = (Inr (Generated (Some demo_invoice) 2 1), demo_invoiced)
   \<and> distinct (map be_id (billing_events demo_store))
   \<and> demo_shipping \<in> set (pending_events (draft_reverted demo_payload demo_store)
                             (client_id demo_payload) (invoice_month demo_payload))
   \<and> be_pricing_policy demo_shipping = THB_BASED \<and> be_amount_thb demo_shipping = Some (Fin 120)
   \<and> er_rate demo_rate = Fin (5506129051920839 / 140737488355328)
   \<and> (0::rat) \<le> 120 * (5506129051920839 / 140737488355328)
   \<and> (120::rat) * (5506129051920839 / 140737488355328) \<le> 2 ^ 53
   \<and> normalizedAmount (er_rate demo_rate) demo_shipping
       = Fin (truncateToHundred (round_double (120 * (5506129051920839 / 140737488355328))))
   \<and> normalizedAmount (er_rate demo_rate) demo_shipping = Fin 4600
   \<and> stamped (Fin 4600) (er_rate demo_rate) 1 demo_shipping \<in> set (billing_events demo_invoiced)"
proof -
  have d: "distinct (map be_id (billing_events demo_store))" by code_simp
  have m: "demo_shipping \<in> set (pending_events (draft_reverted demo_payload demo_store)
                             (client_id demo_payload) (invoice_month demo_payload))"
    by code_simp
  have r: "fx_row demo_store (invoice_date demo_payload) = Some demo_rate" by code_simp
  have a: "normalizedAmount (er_rate demo_rate) demo_shipping = Fin 4600" by code_simp
  have f: "er_rate demo_rate = Fin (5506129051920839 / 140737488355328)"
    by (simp add: demo_rate_def demo_fx_value)
  have pol: "be_pricing_policy demo_shipping = THB_BASED"
    and amt: "be_amount_thb demo_shipping = Some (Fin 120)"
    by (simp_all add: demo_shipping_def)
  have b: "(0::rat) \<le> 120 * (5506129051920839 / 140737488355328)"
    "(120::rat) * (5506129051920839 / 140737488355328) \<le> 2 ^ 53"
    by simp_all
  from C1_normalized_amount [OF demo_generate d m] r
  have st: "stamped (normalizedAmount (er_rate demo_rate) demo_shipping) (er_rate demo_rate)
          (inv_id demo_invoice) demo_shipping \<in> set (billing_events demo_invoiced)"
    and ex: "\<forall>a f. be_pricing_policy demo_shipping = THB_BASED
              \<and> (case be_amount_thb demo_shipping of
                    Some a \<Rightarrow> a
                  | None \<Rightarrow> js_mul (num_or0 (be_unit_price_thb demo_shipping)) (num_or0 (be_qty demo_shipping))) = Fin a
              \<and> er_rate demo_rate = Fin f \<and> 0 \<le> a * f \<and> a * f \<le> 2 ^ 53
            \<longrightarrow> normalizedAmount (er_rate demo_rate) demo_shipping = Fin (truncateToHundred (round_double (a * f)))"
    by auto
  have e: "normalizedAmount (er_rate demo_rate) demo_shipping
       = Fin (truncateToHundred (round_double (120 * (5506129051920839 / 140737488355328))))"
    by (rule ex [rule_format]) (simp add: pol amt f)
  from st a have "stamped (Fin 4600) (er_rate demo_rate) 1 demo_shipping \<in> set (billing_events demo_invoiced)"
    by (simp add: demo_invoice_def)
  with demo_generate d m pol amt f b e a show ?thesis by blast
qed

text \<open>
  The product is not the exact one. The rate 32.05 is read as the binary64 number next
  to it, the product with 2000 is the binary64 number 64099.99999999999, and the event
  is stamped with 64000, where \<open>truncateToHundred(2000 * 32.05)\<close> is 64100. Nor is it the
  exact product of the binary64 operands: 1000 times the binary64 number next to 0.7 is
  below 700 and rounds to 700, which is the normalized amount, where
  \<open>truncateToHundred\<close> of the exact product is 600.
\<close>

theorem C1_counterexample:
  "map be_pricing_policy (billing_events demo_round_store) = [THB_BASED]
   \<and> map be_amount_thb (billing_events demo_round_store) = [Some (Fin 2000)]
   \<and> map er_rate (exchange_rates demo_round_store) = [to_double (3205 / 100)]
   \<and> map be_amount_krw (billing_events (snd (generate demo_payload demo_round_store)))
       = [Some (Fin 64000)]
   \<and> truncateToHundred (2000 * (3205 / 100)) = 64100
   \<and> to_double (7 / 10) = Fin (3152519739159347 / 4503599627370496)
   \<and> normalizedAmount (to_double (7 / 10)) (demo_shipping\<lparr>be_amount_thb := Some (Fin 1000)\<rparr>) = Fin 700
   \<and> truncateToHundred (1000 * (3152519739159347 / 4503599627370496)) = 600"
  using demo_round_generate demo_tenth_amount
  by (simp add: demo_round_store_def demo_store_def demo_shipping_def demo_rate_def)

section \<open>Generation: items and totals\<close>

lemma hundreds_sum_list: "\<forall>x\<in>set xs. hundreds x \<Longrightarrow> hundreds (sum_list xs)"
  by (induction xs) (simp_all add: hundreds_0 hundreds_add)

lemma abs_le_sum_list_abs: "x \<in> set xs \<Longrightarrow> \<bar>x\<bar> \<le> sum_list (map abs xs)" for x :: rat
proof (induction xs)
  case Nil
  then show ?case by simp
next
  case (Cons y ys)
  have "0 \<le> sum_list (map abs ys)" by (rule sum_list_nonneg) auto
  with Cons show ?case by auto
qed

lemma fin_sum_map_Fin: "fin_sum (map Fin ts) = Some (sum_list ts)"
  by (induction ts) simp_all

lemma item_loop_char:
  "\<exists>rows. snd (item_loop iid d g (sub, items)) = items @ rows
     \<and> map ii_service_code rows = map fst g
     \<and> (\<forall>r\<in>set rows. ii_invoice_id r = iid \<and> \<not> ii_deleted r
           \<and> ii_amount_krw r \<noteq> NaN \<and> ii_unit_price_krw r \<noteq> NaN)"
proof (induction g arbitrary: sub items)
  case Nil
  show ?case by simp
next
  case (Cons x g)
  obtain c q a where x: "x = (c, q, a)" by (cases x)
  let ?la = "trunc100 (JNum a)"
  let ?row = "\<lparr>ii_id = fresh_id (map ii_id items), ii_invoice_id = iid,
                       ii_service_code = c, ii_description = d c,
                       ii_qty = q,
                       ii_unit_price_krw = (if js_gt0 q then trunc100 (JNum (js_div ?la q)) else ?la),
                       ii_amount_krw = ?la, ii_deleted = False\<rparr>"
  have step: "item_loop iid d (x # g) (sub, items) = item_loop iid d g (js_add sub ?la, items @ [?row])"
    by (simp add: x Let_def)
  from Cons.IH [of "js_add sub ?la" "items @ [?row]"] obtain rows where
    rows: "snd (item_loop iid d g (js_add sub ?la, items @ [?row])) = (items @ [?row]) @ rows"
      "map ii_service_code rows = map fst g"
      "\<forall>r\<in>set rows. ii_invoice_id r = iid \<and> \<not> ii_deleted r
           \<and> ii_amount_krw r \<noteq> NaN \<and> ii_unit_price_krw r \<noteq> NaN"
    by blast
  show ?case
    unfolding step
    by (rule exI [where x = "?row # rows"]) (simp add: rows x trunc100_num_not_NaN)
qed

lemma item_loop_exact:
  assumes "map (\<lambda>x. snd (snd x)) g = map Fin ts" and "\<forall>t\<in>set ts. hundreds t"
    and "hundreds sub" and "\<bar>sub\<bar> + sum_list (map abs ts) \<le> 2 ^ 54"
  shows "fst (item_loop iid d g (Fin sub, items)) = Fin (sub + sum_list ts)
     \<and> map ii_amount_krw (drop (length items) (snd (item_loop iid d g (Fin sub, items)))) = map Fin ts"
  using assms
proof (induction g arbitrary: sub items ts)
  case Nil
  then show ?case by simp
next
  case (Cons x g)
  obtain c q a where x: "x = (c, q, a)" by (cases x)
  from Cons.prems(1) obtain t ts' where ts: "ts = t # ts'" and a: "a = Fin t"
    and g: "map (\<lambda>x. snd (snd x)) g = map Fin ts'"
    by (cases ts) (auto simp: x)
  from Cons.prems(2) have ht: "hundreds t" and hs: "\<forall>t\<in>set ts'. hundreds t" by (simp_all add: ts)
  have nn: "0 \<le> sum_list (map abs ts')" by (rule sum_list_nonneg) auto
  from Cons.prems(4) nn have bt: "\<bar>t\<bar> \<le> 2 ^ 54" and bs: "\<bar>sub + t\<bar> \<le> 2 ^ 54"
    and br: "\<bar>sub + t\<bar> + sum_list (map abs ts') \<le> 2 ^ 54"
    by (simp_all add: ts)
  have la: "trunc100 (JNum a) = Fin t" unfolding a by (rule trunc100_hundreds [OF ht bt])
  have add: "js_add (Fin sub) (Fin t) = Fin (sub + t)"
    by (rule js_add_hundreds [OF Cons.prems(3) ht bs])
  let ?row = "\<lparr>ii_id = fresh_id (map ii_id items), ii_invoice_id = iid,
                       ii_service_code = c, ii_description = d c,
                       ii_qty = q,
                       ii_unit_price_krw = (if js_gt0 q then trunc100 (JNum (js_div (Fin t) q)) else Fin t),
                       ii_amount_krw = Fin t, ii_deleted = False\<rparr>"
  have step: "item_loop iid d (x # g) (Fin sub, items) = item_loop iid d g (Fin (sub + t), items @ [?row])"
    by (simp add: x Let_def la add)
  from item_loop_char [of iid d g "Fin (sub + t)" "items @ [?row]"] obtain rows where
    rows: "snd (item_loop iid d g (Fin (sub + t), items @ [?row])) = (items @ [?row]) @ rows"
    by blast
  from Cons.IH [OF g hs hundreds_add [OF Cons.prems(3) ht] br, of "items @ [?row]"]
  have ih: "fst (item_loop iid d g (Fin (sub + t), items @ [?row])) = Fin (sub + t + sum_list ts')"
    "map ii_amount_krw (drop (length (items @ [?row])) (snd (item_loop iid d g (Fin (sub + t), items @ [?row]))))
       = map Fin ts'"
    by simp_all
  from ih(2) have "map ii_amount_krw rows = map Fin ts'" by (simp add: rows)
  then show ?case
    unfolding step by (simp add: ih(1) rows ts algebra_simps)
qed

lemma group_add_keys:
  "map fst (group_add c q a g) = (if c \<in> set (map fst g) then map fst g else map fst g @ [c])"
  by (auto simp: group_add_def Let_def case_prod_unfold comp_def)

lemma fold_group_keys:
  "distinct (map fst g) \<Longrightarrow>
   distinct (map fst (fold (\<lambda>e. group_add (code e) (q e) (a e)) evs g))
   \<and> set (map fst (fold (\<lambda>e. group_add (code e) (q e) (a e)) evs g)) = set (map fst g) \<union> code ` set evs"
proof (induction evs arbitrary: g)
  case Nil
  then show ?case by simp
next
  case (Cons e evs)
  have d: "distinct (map fst (group_add (code e) (q e) (a e) g))"
    using Cons.prems by (simp add: group_add_keys)
  from Cons.IH [OF d] show ?case
    by (auto simp: group_add_keys split: if_splits)
qed

lemma group_update_exact:
  assumes "map (\<lambda>x. snd (snd x)) g = map Fin ts" and "\<forall>t\<in>set ts. hundreds t"
    and "distinct (map fst g)" and "hundreds x"
    and "sum_list (map abs ts) + \<bar>x\<bar> \<le> 2 ^ 54"
  shows "\<exists>ts'. map (\<lambda>x. snd (snd x))
                 (map (\<lambda>(c', gq, ga). if c' = c then (c', js_add gq q, js_add ga (Fin x)) else (c', gq, ga)) g)
               = map Fin ts'
     \<and> (\<forall>t\<in>set ts'. hundreds t)
     \<and> sum_list ts' = sum_list ts + (if c \<in> set (map fst g) then x else 0)
     \<and> sum_list (map abs ts') \<le> sum_list (map abs ts) + (if c \<in> set (map fst g) then \<bar>x\<bar> else 0)"
  using assms
proof (induction g arbitrary: ts)
  case Nil
  then show ?case by simp
next
  case (Cons y g)
  obtain c' gq ga where y: "y = (c', gq, ga)" by (cases y)
  from Cons.prems(1) obtain t ts0 where ts: "ts = t # ts0" and ga: "ga = Fin t"
    and g: "map (\<lambda>x. snd (snd x)) g = map Fin ts0"
    by (cases ts) (auto simp: y)
  from Cons.prems(2) have ht: "hundreds t" and hs: "\<forall>t\<in>set ts0. hundreds t" by (simp_all add: ts)
  from Cons.prems(3) have dg: "distinct (map fst g)" and c': "c' \<notin> set (map fst g)" by (simp_all add: y)
  have nn: "0 \<le> sum_list (map abs ts0)" by (rule sum_list_nonneg) auto
  from Cons.prems(5) have b0: "sum_list (map abs ts0) + \<bar>x\<bar> \<le> 2 ^ 54" by (simp add: ts)
  from Cons.IH [OF g hs dg Cons.prems(4) b0] obtain ts1 where
    ih: "map (\<lambda>x. snd (snd x))
           (map (\<lambda>(c', gq, ga). if c' = c then (c', js_add gq q, js_add ga (Fin x)) else (c', gq, ga)) g)
         = map Fin ts1"
      "\<forall>t\<in>set ts1. hundreds t"
      "sum_list ts1 = sum_list ts0 + (if c \<in> set (map fst g) then x else 0)"
      "sum_list (map abs ts1) \<le> sum_list (map abs ts0) + (if c \<in> set (map fst g) then \<bar>x\<bar> else 0)"
    by blast
  show ?case
  proof (cases "c' = c")
    case True
    with c' have notin: "c \<notin> set (map fst g)" by simp
    from Cons.prems(5) nn have "\<bar>t + x\<bar> \<le> 2 ^ 54" by (simp add: ts)
    then have add: "js_add (Fin t) (Fin x) = Fin (t + x)" by (rule js_add_hundreds [OF ht Cons.prems(4)])
    have "\<bar>t + x\<bar> \<le> \<bar>t\<bar> + \<bar>x\<bar>" by (rule abs_triangle_ineq)
    with ih notin show ?thesis
      by (intro exI [where x = "(t + x) # ts1"])
         (simp add: y ga True add ts hundreds_add [OF ht Cons.prems(4)])
  next
    case False
    with ih show ?thesis
      by (intro exI [where x = "t # ts1"]) (simp add: y ga ts ht)
  qed
qed

lemma group_add_exact:
  assumes "map (\<lambda>x. snd (snd x)) g = map Fin ts" and "\<forall>t\<in>set ts. hundreds t"
    and "distinct (map fst g)" and "hundreds x"
    and "sum_list (map abs ts) + \<bar>x\<bar> \<le> 2 ^ 54"
  shows "\<exists>ts'. map (\<lambda>x. snd (snd x)) (group_add c q (Fin x) g) = map Fin ts'
     \<and> (\<forall>t\<in>set ts'. hundreds t)
     \<and> sum_list ts' = sum_list ts + x
     \<and> sum_list (map abs ts') \<le> sum_list (map abs ts) + \<bar>x\<bar>"
proof (cases "c \<in> set (map fst g)")
  case True
  from group_update_exact [OF assms, of c q] True show ?thesis
    by (simp add: group_add_def)
next
  case False
  let ?g1 = "g @ [(c, Fin 0, Fin 0)]"
  have 1: "map (\<lambda>x. snd (snd x)) ?g1 = map Fin (ts @ [0])" using assms(1) by simp
  have 2: "\<forall>t\<in>set (ts @ [0]). hundreds t" using assms(2) by (auto simp: hundreds_0)
  have 3: "distinct (map fst ?g1)" using assms(3) False by simp
  have 4: "sum_list (map abs (ts @ [0])) + \<bar>x\<bar> \<le> 2 ^ 54" using assms(5) by simp
  from group_update_exact [OF 1 2 3 assms(4) 4, of c q] False show ?thesis
    by (simp add: group_add_def)
qed

lemma fold_group_exact:
  assumes "map a evs = map Fin xs" and "\<forall>x\<in>set xs. hundreds x"
    and "map (\<lambda>x. snd (snd x)) g = map Fin ts" and "\<forall>t\<in>set ts. hundreds t"
    and "distinct (map fst g)"
    and "sum_list (map abs ts) + sum_list (map abs xs) \<le> 2 ^ 54"
  shows "\<exists>ts'. map (\<lambda>x. snd (snd x)) (fold (\<lambda>e. group_add (code e) (q e) (a e)) evs g) = map Fin ts'
     \<and> (\<forall>t\<in>set ts'. hundreds t)
     \<and> sum_list ts' = sum_list ts + sum_list xs
     \<and> sum_list (map abs ts') \<le> sum_list (map abs ts) + sum_list (map abs xs)"
  using assms
proof (induction evs arbitrary: g ts xs)
  case Nil
  then show ?case by (intro exI [where x = ts]) simp
next
  case (Cons e evs)
  from Cons.prems(1) obtain x xs0 where xs: "xs = x # xs0" and ae: "a e = Fin x"
    and rest: "map a evs = map Fin xs0"
    by (cases xs) auto
  from Cons.prems(2) have hx: "hundreds x" and hxs: "\<forall>x\<in>set xs0. hundreds x" by (simp_all add: xs)
  have nn: "0 \<le> sum_list (map abs xs0)" by (rule sum_list_nonneg) auto
  from Cons.prems(6) nn have b1: "sum_list (map abs ts) + \<bar>x\<bar> \<le> 2 ^ 54" by (simp add: xs)
  from group_add_exact [OF Cons.prems(3,4,5) hx b1, of "code e" "q e"] obtain ts1 where
    g1: "map (\<lambda>x. snd (snd x)) (group_add (code e) (q e) (Fin x) g) = map Fin ts1"
      "\<forall>t\<in>set ts1. hundreds t" "sum_list ts1 = sum_list ts + x"
      "sum_list (map abs ts1) \<le> sum_list (map abs ts) + \<bar>x\<bar>"
    by blast
  have d1: "distinct (map fst (group_add (code e) (q e) (Fin x) g))"
    using Cons.prems(5) by (simp add: group_add_keys)
  from Cons.prems(6) g1(4) have b2: "sum_list (map abs ts1) + sum_list (map abs xs0) \<le> 2 ^ 54"
    by (simp add: xs)
  from Cons.IH [OF rest hxs g1(1,2) d1 b2] obtain ts2 where
    "map (\<lambda>x. snd (snd x)) (fold (\<lambda>e. group_add (code e) (q e) (a e)) evs (group_add (code e) (q e) (Fin x) g))
       = map Fin ts2"
    "\<forall>t\<in>set ts2. hundreds t" "sum_list ts2 = sum_list ts1 + sum_list xs0"
    "sum_list (map abs ts2) \<le> sum_list (map abs ts1) + sum_list (map abs xs0)"
    by blast
  with g1 show ?case
    by (intro exI [where x = ts2]) (simp add: ae xs)
qed

lemma write_invoice_items:
  fixes p :: generate_payload and s :: store and fx :: jsnum and evs :: "billing_event list"
  defines "il \<equiv> item_loop (fresh_id (map inv_id (invoices s))) (item_description (service_catalog s))
                  (fold (\<lambda>e. group_add (be_service_code e) (num_or0 (be_qty e)) (normalizedAmount fx e)) evs [])
                  (Fin 0, invoice_items s)"
  assumes w: "write_invoice p fid fx evs s = (Generated (Some i) n fid', s')"
  shows "\<exists>rows v. invoice_items s' = invoice_items s @ rows @ [v]
      \<and> rows = drop (length (invoice_items s)) (snd il)
      \<and> ii_service_code v = ''VAT_7'' \<and> ii_amount_krw v = inv_vat_krw i
      \<and> ii_unit_price_krw v = inv_vat_krw i \<and> ii_qty v = Fin 1
      \<and> ii_invoice_id v = inv_id i \<and> \<not> ii_deleted v
      \<and> distinct (map ii_service_code rows)
      \<and> set (map ii_service_code rows) = be_service_code ` set evs
      \<and> (\<forall>r\<in>set rows. ii_invoice_id r = inv_id i \<and> \<not> ii_deleted r)
      \<and> inv_subtotal_krw i = trunc100 (JNum (fst il))
      \<and> inv_vat_krw i = trunc100 (JNum (js_mul (inv_subtotal_krw i) (to_double (7 / 100))))
      \<and> inv_total_krw i = trunc100 (JNum (js_add (inv_subtotal_krw i) (inv_vat_krw i)))
      \<and> inv_id i = fresh_id (map inv_id (invoices s))"
proof -
  let ?iid = "fresh_id (map inv_id (invoices s))"
  let ?g = "fold (\<lambda>e. group_add (be_service_code e) (num_or0 (be_qty e)) (normalizedAmount fx e)) evs []"
  from write_invoice_row [OF w, folded il_def] have
    i: "inv_id i = ?iid" "inv_subtotal_krw i = trunc100 (JNum (fst il))"
      "inv_vat_krw i = trunc100 (JNum (js_mul (inv_subtotal_krw i) (to_double (7 / 100))))"
      "inv_total_krw i = trunc100 (JNum (js_add (inv_subtotal_krw i) (inv_vat_krw i)))"
    and items: "invoice_items s' =
                snd il @ [\<lparr>ii_id = fresh_id (map ii_id (snd il)), ii_invoice_id = inv_id i,
                      ii_service_code = ''VAT_7'', ii_description = ''VAT 7%'',
                      ii_qty = Fin 1, ii_unit_price_krw = inv_vat_krw i, ii_amount_krw = inv_vat_krw i,
                      ii_deleted = False\<rparr>]"
    by auto
  from item_loop_char [of ?iid "item_description (service_catalog s)" ?g "Fin 0" "invoice_items s"]
  obtain rows where rows: "snd il = invoice_items s @ rows"
    "map ii_service_code rows = map fst ?g"
    "\<forall>r\<in>set rows. ii_invoice_id r = ?iid \<and> \<not> ii_deleted r"
    unfolding il_def by auto
  from fold_group_keys [of "[]" be_service_code "\<lambda>e. num_or0 (be_qty e)" "normalizedAmount fx" evs]
  have keys: "distinct (map fst ?g)" "set (map fst ?g) = be_service_code ` set evs" by simp_all
  show ?thesis
    apply (rule exI [where x = rows])
    apply (rule exI [where x = "\<lparr>ii_id = fresh_id (map ii_id (snd il)), ii_invoice_id = inv_id i,
                      ii_service_code = ''VAT_7'', ii_description = ''VAT 7%'',
                      ii_qty = Fin 1, ii_unit_price_krw = inv_vat_krw i, ii_amount_krw = inv_vat_krw i,
                      ii_deleted = False\<rparr>"])
    using items rows keys i by simp
qed

lemma write_invoice_exact:
  fixes p :: generate_payload and s :: store and fx :: jsnum and evs :: "billing_event list"
  assumes w: "write_invoice p fid fx evs s = (Generated (Some i) n fid', s')"
    and fin: "map (normalizedAmount fx) evs = map Fin xs"
    and bound: "sum_list (map abs xs) \<le> 2 ^ 53"
  shows "\<exists>ts v. inv_subtotal_krw i = Fin (sum_list xs)
      \<and> inv_vat_krw i = Fin v \<and> inv_total_krw i = Fin (sum_list xs + v)
      \<and> sum_list ts = sum_list xs
      \<and> map ii_amount_krw
           (drop (length (invoice_items s))
              (snd (item_loop (fresh_id (map inv_id (invoices s))) (item_description (service_catalog s))
                  (fold (\<lambda>e. group_add (be_service_code e) (num_or0 (be_qty e)) (normalizedAmount fx e)) evs [])
                  (Fin 0, invoice_items s))))
          = map Fin ts"
proof -
  let ?iid = "fresh_id (map inv_id (invoices s))"
  let ?g = "fold (\<lambda>e. group_add (be_service_code e) (num_or0 (be_qty e)) (normalizedAmount fx e)) evs []"
  let ?il = "item_loop ?iid (item_description (service_catalog s)) ?g (Fin 0, invoice_items s)"
  let ?S = "sum_list xs"
  from write_invoice_items [OF w] have
    sub: "inv_subtotal_krw i = trunc100 (JNum (fst ?il))"
    and vat: "inv_vat_krw i = trunc100 (JNum (js_mul (inv_subtotal_krw i) (to_double (7 / 100))))"
    and tot: "inv_total_krw i = trunc100 (JNum (js_add (inv_subtotal_krw i) (inv_vat_krw i)))"
    by auto
  have hx: "\<forall>x\<in>set xs. hundreds x"
  proof
    fix x assume x: "x \<in> set xs"
    then have "Fin x \<in> set (map (normalizedAmount fx) evs)" by (simp add: fin)
    then obtain e where e: "normalizedAmount fx e = Fin x" by auto
    from abs_le_sum_list_abs [OF x] bound have "\<bar>x\<bar> < 2 ^ 54" by simp
    with e show "hundreds x" by (rule normalizedAmount_hundreds)
  qed
  have b0: "sum_list (map abs []) + sum_list (map abs xs) \<le> (2::rat) ^ 54" using bound by simp
  from fold_group_exact [where a = "normalizedAmount fx" and g = "[]" and ts = "[]"
      and code = be_service_code and q = "\<lambda>e. num_or0 (be_qty e)", OF fin hx _ _ _ b0]
  obtain ts where ts: "map (\<lambda>x. snd (snd x)) ?g = map Fin ts" "\<forall>t\<in>set ts. hundreds t"
    "sum_list ts = ?S" "sum_list (map abs ts) \<le> sum_list (map abs xs)"
    by auto
  have b1: "\<bar>0\<bar> + sum_list (map abs ts) \<le> (2::rat) ^ 54" using ts(4) bound by simp
  from item_loop_exact [OF ts(1,2) hundreds_0 b1, of ?iid "item_description (service_catalog s)" "invoice_items s"]
  have il: "fst ?il = Fin ?S"
    "map ii_amount_krw (drop (length (invoice_items s)) (snd ?il)) = map Fin ts"
    by (simp_all add: ts(3))
  have hS: "hundreds ?S" by (rule hundreds_sum_list [OF hx])
  have bS: "\<bar>?S\<bar> \<le> 2 ^ 53" using sum_list_abs [of xs] bound by simp
  have s1: "inv_subtotal_krw i = Fin ?S"
    unfolding sub il(1) using bS by (intro trunc100_hundreds [OF hS]) simp
  from vat_bounded [OF bS] obtain k where k: "inv_vat_krw i = Fin (of_int (100 * k))" "\<bar>k\<bar> \<le> 2 ^ 44"
    unfolding vat s1 by blast
  have "\<bar>100 * k\<bar> \<le> 100 * 2 ^ 44" using k(2) by simp
  then have "(of_int \<bar>100 * k\<bar> :: rat) \<le> of_int (100 * 2 ^ 44)" by (simp only: of_int_le_iff)
  then have bv: "\<bar>(of_int (100 * k) :: rat)\<bar> \<le> 100 * 2 ^ 44" by simp
  have bt: "\<bar>?S + of_int (100 * k)\<bar> \<le> 2 ^ 54" using bS bv by simp
  have hv: "hundreds (of_int (100 * k))" by (rule hundreds_of_int)
  have "inv_total_krw i = trunc100 (JNum (Fin (?S + of_int (100 * k))))"
    unfolding tot s1 k(1) by (simp only: js_add_hundreds [OF hS hv bt])
  also have "\<dots> = Fin (?S + of_int (100 * k))"
    by (rule trunc100_hundreds [OF hundreds_add [OF hS hv] bt])
  finally have t1: "inv_total_krw i = Fin (?S + of_int (100 * k))" .
  from s1 k(1) t1 ts(3) il(2) show ?thesis by blast
qed

lemma codes_absent:
  assumes "\<forall>e\<in>set evs. code e \<noteq> c" and "set (map icode rows) = code ` set evs"
  shows "\<forall>r\<in>set rows. icode r \<noteq> c"
proof
  fix r assume "r \<in> set rows"
  then have "icode r \<in> set (map icode rows)" by simp
  with assms(2) obtain e where "e \<in> set evs" "icode r = code e" by auto
  with assms(1) show "icode r \<noteq> c" by auto
qed






text \<open>
  C2 (amended). Let the normalized amounts of the consumed events be finite, with
  absolute values that sum to at most \<open>2^53\<close>. Then a generated invoice has
  \<open>subtotal_krw\<close> equal to their exact sum and \<open>total_krw = subtotal_krw + vat_krw\<close>
  exactly. If moreover every item row of the store refers to an invoice row and no
  consumed event has the service code \<open>VAT_7\<close>, then \<open>subtotal_krw\<close> is the exact sum of
  \<open>amount_krw\<close> over the live items of the invoice with a code other than \<open>VAT_7\<close>.
\<close>

theorem C2_conservation:
  assumes "generate p s = (Inr (Generated row n fid), s')"
    and "fx_row s (invoice_date p) = Some fxr"
    and "map (normalizedAmount (er_rate fxr))
           (pending_events (draft_reverted p s) (client_id p) (invoice_month p)) = map Fin xs"
    and "sum_list (map abs xs) \<le> 2 ^ 53"
  shows "\<exists>i v. row = Some i \<and> i \<in> set (invoices s')
      \<and> inv_subtotal_krw i = Fin (sum_list xs)
      \<and> inv_vat_krw i = Fin v
      \<and> inv_total_krw i = Fin (sum_list xs + v)
      \<and> ((\<forall>it\<in>set (invoice_items s). ii_invoice_id it \<in> inv_id ` set (invoices s))
          \<and> (\<forall>e\<in>set (pending_events (draft_reverted p s) (client_id p) (invoice_month p)).
                be_service_code e \<noteq> ''VAT_7'')
          \<longrightarrow> non_vat_item_sum s' (inv_id i) = Some (sum_list xs))"
proof -
  let ?s1 = "draft_reverted p s"
  let ?evs = "pending_events ?s1 (client_id p) (invoice_month p)"
  from generate_Generated_write [OF assms(1)] assms(2) have
    w: "write_invoice p (er_id fxr) (er_rate fxr) ?evs (lock_rate ?s1 (er_id fxr))
              = (Generated row n fid, s')"
    by auto
  from write_invoice_row [OF w] obtain i where i: "row = Some i" "i \<in> set (invoices s')" by auto
  note w' = w [unfolded i(1)]
  from write_invoice_items [OF w'] obtain rows v where
    items: "invoice_items s' = invoice_items ?s1 @ rows @ [v]"
    and rdef: "rows = drop (length (invoice_items ?s1))
        (snd (item_loop (fresh_id (map inv_id (invoices ?s1))) (item_description (service_catalog ?s1))
           (fold (\<lambda>e. group_add (be_service_code e) (num_or0 (be_qty e)) (normalizedAmount (er_rate fxr) e)) ?evs [])
           (Fin 0, invoice_items ?s1)))"
    and v: "ii_service_code v = ''VAT_7''"
    and codes: "set (map ii_service_code rows) = be_service_code ` set ?evs"
    and rows: "\<forall>r\<in>set rows. ii_invoice_id r = inv_id i \<and> \<not> ii_deleted r"
    and iid: "inv_id i = fresh_id (map inv_id (invoices s))"
    by (auto simp: lock_rate_frame draft_reverted_frame)
  from write_invoice_exact [OF w' assms(3,4)] obtain ts va where
    sub: "inv_subtotal_krw i = Fin (sum_list xs)"
    and vat: "inv_vat_krw i = Fin va"
    and tot: "inv_total_krw i = Fin (sum_list xs + va)"
    and ts: "sum_list ts = sum_list xs" "map ii_amount_krw rows = map Fin ts"
    unfolding rdef by (auto simp: lock_rate_frame)
  have "non_vat_item_sum s' (inv_id i) = Some (sum_list xs)"
    if fk: "\<forall>it\<in>set (invoice_items s). ii_invoice_id it \<in> inv_id ` set (invoices s)"
      and nv: "\<forall>e\<in>set ?evs. be_service_code e \<noteq> ''VAT_7''"
  proof -
    have "set (map ii_invoice_id (invoice_items ?s1)) \<subseteq> inv_id ` set (invoices s)"
      using fk by (auto simp: draft_reverted_frame)
    then have old: "\<forall>it\<in>set (invoice_items ?s1). ii_invoice_id it \<noteq> inv_id i"
      unfolding iid using fresh_id_gt [of _ "map inv_id (invoices s)"] by fastforce
    have novat: "\<forall>r\<in>set rows. ii_service_code r \<noteq> ''VAT_7''"
      by (rule codes_absent [OF nv codes])
    have f_old: "filter (\<lambda>it. ii_invoice_id it = inv_id i \<and> \<not> ii_deleted it \<and> ii_service_code it \<noteq> ''VAT_7'')
                   (invoice_items ?s1) = []"
      using old by (simp add: filter_empty_conv)
    have f_rows: "filter (\<lambda>it. ii_invoice_id it = inv_id i \<and> \<not> ii_deleted it \<and> ii_service_code it \<noteq> ''VAT_7'')
                   rows = rows"
      using rows novat by (simp add: filter_id_conv)
    have "non_vat_item_sum s' (inv_id i) = fin_sum (map ii_amount_krw rows)"
      unfolding non_vat_item_sum_def items by (simp add: f_old f_rows v)
    then show ?thesis by (simp add: ts fin_sum_map_Fin)
  qed
  with i sub vat tot show ?thesis by blast
qed

lemma demo_amounts:
  "fx_row demo_store (invoice_date demo_payload) = Some demo_rate"
  "map (normalizedAmount (er_rate demo_rate))
     (pending_events (draft_reverted demo_payload demo_store) (client_id demo_payload)
        (invoice_month demo_payload)) = map Fin [4600, 10500]"
  "map be_service_code (pending_events (draft_reverted demo_payload demo_store) (client_id demo_payload)
        (invoice_month demo_payload)) = [''TH_SHIPPING'', ''OUTBOUND_FEE'']"
  by code_simp+

theorem C2_conservation_witness:
  "generate demo_payload demo_store = (Inr (Generated (Some demo_invoice) 2 1), demo_invoiced)
   \<and> fx_row demo_store (invoice_date demo_payload) = Some demo_rate
   \<and> map (normalizedAmount (er_rate demo_rate))
       (pending_events (draft_reverted demo_payload demo_store) (client_id demo_payload)
          (invoice_month demo_payload)) = map Fin [4600, 10500]
   \<and> sum_list (map abs [4600, 10500 :: rat]) \<le> 2 ^ 53
   \<and> invoice_items demo_store = []
   \<and> map be_service_code (pending_events (draft_reverted demo_payload demo_store) (client_id demo_payload)
        (invoice_month demo_payload)) = [''TH_SHIPPING'', ''OUTBOUND_FEE'']
   \<and> inv_subtotal_krw demo_invoice = Fin (sum_list [4600, 10500])
   \<and> inv_subtotal_krw demo_invoice = Fin 15100
   \<and> inv_vat_krw demo_invoice = Fin 1000
   \<and> inv_total_krw demo_invoice = Fin (sum_list [4600, 10500] + 1000)
   \<and> non_vat_item_sum demo_invoiced (inv_id demo_invoice) = Some (sum_list [4600, 10500])"
proof -
  have b: "sum_list (map abs [4600, 10500 :: rat]) \<le> 2 ^ 53" by simp
  have fk: "\<forall>it\<in>set (invoice_items demo_store). ii_invoice_id it \<in> inv_id ` set (invoices demo_store)"
    by (simp add: demo_store_def)
  have "\<forall>c\<in>set (map be_service_code (pending_events (draft_reverted demo_payload demo_store)
          (client_id demo_payload) (invoice_month demo_payload))). c \<noteq> ''VAT_7''"
    unfolding demo_amounts(3) by simp
  then have nv: "\<forall>e\<in>set (pending_events (draft_reverted demo_payload demo_store)
          (client_id demo_payload) (invoice_month demo_payload)). be_service_code e \<noteq> ''VAT_7''"
    by simp
  from C2_conservation [OF demo_generate demo_amounts(1,2) b] fk nv
  have "inv_subtotal_krw demo_invoice = Fin (sum_list [4600, 10500])"
    "\<exists>v. inv_vat_krw demo_invoice = Fin v \<and> inv_total_krw demo_invoice = Fin (sum_list [4600, 10500] + v)"
    "non_vat_item_sum demo_invoiced (inv_id demo_invoice) = Some (sum_list [4600, 10500])"
    by auto
  moreover have "inv_subtotal_krw demo_invoice = Fin 15100" "inv_vat_krw demo_invoice = Fin 1000"
    by (simp_all add: demo_invoice_def)
  moreover have "invoice_items demo_store = []" by (simp add: demo_store_def)
  ultimately show ?thesis using demo_generate demo_amounts b by auto
qed

lemma demo_vat_generate:
  "fst (generate demo_payload demo_vat_store) = Inr (Generated (Some demo_vat_invoice) 1 1)"
  "non_vat_item_sum (snd (generate demo_payload demo_vat_store)) (inv_id demo_vat_invoice) = Some 0"
  "map be_service_code (pending_events (draft_reverted demo_payload demo_vat_store)
     (client_id demo_payload) (invoice_month demo_payload)) = [''VAT_7'']"
  by code_simp+

lemma demo_large_generate:
  "fst (generate demo_payload demo_large_store) = Inr (Generated (Some demo_large_invoice) 1 1)"
  "map (normalizedAmount (er_rate demo_rate))
     (pending_events (draft_reverted demo_payload demo_large_store) (client_id demo_payload)
        (invoice_month demo_payload)) = map Fin [36028797018963900]"
  by code_simp+

text \<open>
  Without the premise on the service codes the statement fails. The event schema
  admits any string of 1 to 80 characters as a service code; the group row of an event
  filed under \<open>VAT_7\<close> counts in the subtotal, 10500, and is left out by the filter,
  whose sum is 0. Without the bound it fails as well: an outbound fee of
  36028797018963900 KRW gives that subtotal and the VAT 2522015791327400, whose sum
  38550812810291300 is no binary64 number; the total is 38550812810291200.
\<close>

theorem C2_counterexample:
  "fst (generate demo_payload demo_vat_store) = Inr (Generated (Some demo_vat_invoice) 1 1)
   \<and> inv_subtotal_krw demo_vat_invoice = Fin 10500
   \<and> non_vat_item_sum (snd (generate demo_payload demo_vat_store)) (inv_id demo_vat_invoice) = Some 0
   \<and> invoice_items demo_vat_store = []
   \<and> map be_service_code (pending_events (draft_reverted demo_payload demo_vat_store)
        (client_id demo_payload) (invoice_month demo_payload)) = [''VAT_7'']
   \<and> fst (generate demo_payload demo_large_store) = Inr (Generated (Some demo_large_invoice) 1 1)
   \<and> map (normalizedAmount (er_rate demo_rate))
        (pending_events (draft_reverted demo_payload demo_large_store) (client_id demo_payload)
           (invoice_month demo_payload)) = map Fin [36028797018963900]
   \<and> inv_subtotal_krw demo_large_invoice = Fin 36028797018963900
   \<and> inv_vat_krw demo_large_invoice = Fin 2522015791327400
   \<and> inv_total_krw demo_large_invoice = Fin 38550812810291200
   \<and> (36028797018963900 :: rat) + 2522015791327400 = 38550812810291300"
  using demo_vat_generate demo_large_generate
  by (simp add: demo_vat_invoice_def demo_large_invoice_def demo_invoice_def demo_vat_store_def
      demo_store_def)

section \<open>Falsy inputs and \<open>NaN\<close>\<close>

text \<open>
  C10 (amended). For \<open>undefined\<close>, \<open>null\<close>, a boolean or a number, \<open>trunc100\<close> returns a
  number that is not \<open>NaN\<close>, and for every falsy input (\<open>undefined\<close>, \<open>null\<close>, \<open>false\<close>,
  \<open>NaN\<close>, \<open>0\<close>) it returns 0. An event whose four monetary columns are all \<open>NULL\<close> has
  the normalized amount 0, whatever its policy, quantity and rate; no normalized amount
  is \<open>NaN\<close>, and the subtotal, VAT and total of a generated invoice are not \<open>NaN\<close>.
\<close>

theorem C10_trunc100_total:
  "(v \<noteq> JPlainObject \<longrightarrow> trunc100 v \<noteq> NaN)
   \<and> (\<not> truthy v \<longrightarrow> trunc100 v = Fin 0)
   \<and> (be_amount_thb e = None \<and> be_unit_price_thb e = None
        \<and> be_amount_krw e = None \<and> be_unit_price_krw e = None
      \<longrightarrow> normalizedAmount fx e = Fin 0)
   \<and> normalizedAmount fx e \<noteq> NaN
   \<and> (generate p s = (Inr (Generated row n fid), s')
      \<longrightarrow> (\<exists>i. row = Some i \<and> inv_subtotal_krw i \<noteq> NaN \<and> inv_vat_krw i \<noteq> NaN
                \<and> inv_total_krw i \<noteq> NaN))"
proof -
  have "\<exists>i. row = Some i \<and> inv_subtotal_krw i \<noteq> NaN \<and> inv_vat_krw i \<noteq> NaN \<and> inv_total_krw i \<noteq> NaN"
    if g: "generate p s = (Inr (Generated row n fid), s')"
  proof -
    let ?s1 = "draft_reverted p s"
    let ?evs = "pending_events ?s1 (client_id p) (invoice_month p)"
    from generate_Generated_write [OF g] obtain fxr :: exchange_rate where
      w: "write_invoice p (er_id fxr) (er_rate fxr) ?evs (lock_rate ?s1 (er_id fxr))
                = (Generated row n fid, s')"
      by blast
    from write_invoice_row [OF w] obtain i a b c where "row = Some i"
      "inv_subtotal_krw i = trunc100 (JNum a)" "inv_vat_krw i = trunc100 (JNum b)"
      "inv_total_krw i = trunc100 (JNum c)"
      by auto
    then show ?thesis by (simp add: trunc100_num_not_NaN)
  qed
  with trunc100_not_NaN [of v] trunc100_falsy [of v] normalizedAmount_absent [of e fx]
    normalizedAmount_not_NaN [of fx e]
  show ?thesis by blast
qed

theorem C10_trunc100_total_witness:
  "\<not> truthy JNull \<and> trunc100 JNull = Fin 0 \<and> trunc100 JNull \<noteq> NaN
   \<and> be_amount_thb demo_blank = None \<and> be_unit_price_thb demo_blank = None
   \<and> be_amount_krw demo_blank = None \<and> be_unit_price_krw demo_blank = None
   \<and> normalizedAmount demo_fx demo_blank = Fin 0
   \<and> generate demo_payload demo_store = (Inr (Generated (Some demo_invoice) 2 1), demo_invoiced)
   \<and> inv_subtotal_krw demo_invoice \<noteq> NaN \<and> inv_vat_krw demo_invoice \<noteq> NaN
   \<and> inv_total_krw demo_invoice \<noteq> NaN"
  using C10_trunc100_total [of JNull demo_blank demo_fx demo_payload demo_store
      "Some demo_invoice" 2 1 demo_invoiced] demo_generate
  by (simp add: demo_blank_def)

text \<open>
  On other inputs \<open>trunc100\<close> does return \<open>NaN\<close>: an object literal is truthy and
  converts to \<open>NaN\<close>.
\<close>

theorem C10_counterexample:
  "truthy JPlainObject \<and> Number JPlainObject = NaN \<and> trunc100 JPlainObject = NaN"
  by (simp add: trunc100_nonfinite)

end
